theory Spec2Isabelle
  imports Main "HOL-Library.Word"
begin

unbundle bit_operations_syntax

section \<open>The pseudoterminal bridge \<^verbatim>\<open>src/pty/ptyd.c\<close>\<close>

text \<open>
  A shallow embedding of the framing parser, the process controller and the session loop
  of \<^verbatim>\<open>ptyd.c\<close>. Machine integers that the code computes with are words of the width
  the C types have on the platforms the file compiles for (LP64 Linux and macOS):
  \<^verbatim>\<open>uint8_t\<close>, \<^verbatim>\<open>uint16_t\<close>, \<^verbatim>\<open>uint32_t\<close> and a 64-bit \<^verbatim>\<open>size_t\<close>.
  File descriptors, process ids, return values and wait statuses are only compared and
  passed on, and are integers.
\<close>

type_synonym u8 = "8 word"
type_synonym u16 = "16 word"
type_synonym u32 = "32 word"
type_synonym size_t = "64 word"

subsection \<open>Constants\<close>

definition OPCODE_DATA :: u8 where
  "OPCODE_DATA = 0x01"

definition OPCODE_RESIZE :: u8 where
  "OPCODE_RESIZE = 0x02"

definition OPCODE_CLOSE :: u8 where
  "OPCODE_CLOSE = 0x03"

text \<open>
  Values of the system headers, which are not part of the repository. They are the same
  on Linux and macOS.
\<close>

definition EINTR :: int where
  "EINTR = 4"

definition SIGHUP :: int where
  "SIGHUP = 1"

definition SIGWINCH :: int where
  "SIGWINCH = 28"

definition WNOHANG :: int where
  "WNOHANG = 1"

definition STDIN_FILENO :: int where
  "STDIN_FILENO = 0"

definition STDOUT_FILENO :: int where
  "STDOUT_FILENO = 1"

subsection \<open>The environment\<close>

text \<open>
  Every call the program makes into the C library or the kernel is appended to a
  history. What the environment answers is a function of the history up to and
  including the call: the value returned, the \<^verbatim>\<open>errno\<close> left behind, the bytes a
  \<^verbatim>\<open>read\<close> stored, the status a \<^verbatim>\<open>waitpid\<close> stored and the descriptors a
  \<^verbatim>\<open>select\<close> left in the read set. \<open>os_junk\<close> is the indeterminate content of
  freshly allocated memory.
\<close>

record winsize =
  ws_row :: u16
  ws_col :: u16
  ws_xpixel :: u16
  ws_ypixel :: u16

datatype call =
    Malloc size_t
  | Realloc size_t
  | Free
  | Write int "u8 list"
  | Ioctl_TIOCSWINSZ int winsize
  | Getpgid int
  | Killpg int int
  | Kill int int
  | Waitpid int int
  | Select "int list" nat
  | Read int nat
  | Close int

record os =
  os_ret :: "call list \<Rightarrow> int"
  os_errno :: "call list \<Rightarrow> int"
  os_data :: "call list \<Rightarrow> u8 list"
  os_status :: "call list \<Rightarrow> int"
  os_ready :: "call list \<Rightarrow> int list"
  os_junk :: "nat \<Rightarrow> u8"

text \<open>
  An access outside the allocated block is undefined behaviour in C, and a
  \<^verbatim>\<open>write\<close> from a range outside it fails or sends memory that is not the
  buffer's. The model stops with \<open>OutOfBounds\<close> there instead of reading or writing an
  unspecified value.
\<close>

datatype fault = OutOfBounds

text \<open>How a loop body ends: with \<^verbatim>\<open>return rc\<close>, or by going round the loop again.\<close>

datatype flow = Return int | Continue

subsection \<open>Frame buffer\<close>

text \<open>
  \<^verbatim>\<open>struct parser\<close>. \<open>buf\<close> is the content of the allocated block, one list element
  per byte, so \<open>length (buf p)\<close> is the size of the allocation; \<open>len\<close> and \<open>cap\<close>
  are the two \<^verbatim>\<open>size_t\<close> fields.
\<close>

record parser =
  buf :: "u8 list"
  len :: size_t
  cap :: size_t

definition fresh_bytes :: "(nat \<Rightarrow> u8) \<Rightarrow> nat \<Rightarrow> nat \<Rightarrow> u8 list" where
  "fresh_bytes junk i j = map junk [i..<j]"

text \<open>\<^verbatim>\<open>realloc\<close>: the old content up to the new size, then indeterminate bytes.\<close>

definition realloc_block :: "(nat \<Rightarrow> u8) \<Rightarrow> u8 list \<Rightarrow> nat \<Rightarrow> u8 list" where
  "realloc_block junk bs n = take n bs @ fresh_bytes junk (length bs) n"

text \<open>\<^verbatim>\<open>memcpy (dst + off, src, length src)\<close> on a block that holds the target range.\<close>

definition memcpy :: "u8 list \<Rightarrow> nat \<Rightarrow> u8 list \<Rightarrow> u8 list" where
  "memcpy dst off src = take off dst @ src @ drop (off + length src) dst"

text \<open>\<^verbatim>\<open>memmove (dst, dst + off, n)\<close> on a block that holds the source range.\<close>

definition memmove :: "u8 list \<Rightarrow> nat \<Rightarrow> nat \<Rightarrow> u8 list" where
  "memmove dst off n = memcpy dst 0 (take n (drop off dst))"

text \<open>The pending bytes \<open>[0, len)\<close> of the buffer.\<close>

definition pending :: "parser \<Rightarrow> u8 list" where
  "pending p = take (unat (len p)) (buf p)"

definition parser_init :: "os \<Rightarrow> call list \<Rightarrow> size_t \<Rightarrow> int \<times> call list \<times> parser" where
  "parser_init os tr c =
     (let tr' = tr @ [Malloc c] in
      if os_ret os tr' = 0 then (-1, tr', \<lparr>buf = [], len = 0, cap = 0\<rparr>)
      else (0, tr', \<lparr>buf = fresh_bytes (os_junk os) 0 (unat c), len = 0, cap = c\<rparr>))"

definition parser_deinit :: "call list \<Rightarrow> parser \<Rightarrow> call list \<times> parser" where
  "parser_deinit tr p = (tr @ [Free], \<lparr>buf = [], len = 0, cap = 0\<rparr>)"

text \<open>
  The loop \<^verbatim>\<open>while (next_cap < p->len + n) next_cap *= 2\<close>. The product wraps at
  \<open>2 ^ 64\<close>, and the loop does not end once \<open>next_cap\<close> has become 0.
\<close>

partial_function (option) grow_cap :: "size_t \<Rightarrow> size_t \<Rightarrow> size_t option" where
  "grow_cap next_cap need =
     (if next_cap < need then grow_cap (next_cap * 2) need else Some next_cap)"

text \<open>The tail of \<^verbatim>\<open>parser_append\<close>: the \<^verbatim>\<open>memcpy\<close> and the new length.\<close>

definition append_copy ::
  "call list \<Rightarrow> parser \<Rightarrow> u8 list \<Rightarrow> size_t \<Rightarrow> fault + int \<times> call list \<times> parser" where
  "append_copy tr p data n =
     (if unat n \<le> length data \<and> unat (len p) + unat n \<le> length (buf p)
      then Inr (0, tr, p\<lparr>buf := memcpy (buf p) (unat (len p)) (take (unat n) data),
                           len := len p + n\<rparr>)
      else Inl OutOfBounds)"

definition parser_append ::
  "os \<Rightarrow> call list \<Rightarrow> parser \<Rightarrow> u8 list \<Rightarrow> size_t \<Rightarrow>
   (fault + int \<times> call list \<times> parser) option" where
  "parser_append os tr p data n =
     (if n = 0 then Some (Inr (0, tr, p))
      else if cap p < len p + n then
        (case grow_cap (cap p * 2) (len p + n) of
           None \<Rightarrow> None
         | Some next_cap \<Rightarrow>
             (let tr' = tr @ [Realloc next_cap] in
              if os_ret os tr' = 0 then Some (Inr (-1, tr', p))
              else Some (append_copy tr'
                     (p\<lparr>buf := realloc_block (os_junk os) (buf p) (unat next_cap),
                        cap := next_cap\<rparr>) data n)))
      else Some (append_copy tr p data n))"

definition parser_consume :: "parser \<Rightarrow> size_t \<Rightarrow> fault + parser" where
  "parser_consume p n =
     (if len p \<le> n then Inr (p\<lparr>len := 0\<rparr>)
      else if unat (len p) \<le> length (buf p)
      then Inr (p\<lparr>buf := memmove (buf p) (unat n) (unat (len p - n)), len := len p - n\<rparr>)
      else Inl OutOfBounds)"

subsection \<open>Process controller\<close>

text \<open>
  \<^verbatim>\<open>write_all\<close> on the \<open>count\<close> bytes \<open>bs\<close>. A \<^verbatim>\<open>write\<close> that keeps being
  interrupted, or keeps writing nothing, keeps the loop running.
\<close>

partial_function (option) write_all_loop ::
  "os \<Rightarrow> int \<Rightarrow> u8 list \<Rightarrow> size_t \<Rightarrow> size_t \<Rightarrow> call list \<Rightarrow> (int \<times> call list) option" where
  "write_all_loop os fd bs count off tr =
     (if off < count then
        (let tr' = tr @ [Write fd (take (unat (count - off)) (drop (unat off) bs))] in
         if os_ret os tr' < 0 then
           (if os_errno os tr' = EINTR then write_all_loop os fd bs count off tr'
            else Some (-1, tr'))
         else write_all_loop os fd bs count (off + word_of_int (os_ret os tr')) tr')
      else Some (0, tr))"

definition write_all ::
  "os \<Rightarrow> int \<Rightarrow> u8 list \<Rightarrow> size_t \<Rightarrow> call list \<Rightarrow> (int \<times> call list) option" where
  "write_all os fd bs count tr = write_all_loop os fd bs count 0 tr"

definition signal_child :: "os \<Rightarrow> int \<Rightarrow> int \<Rightarrow> call list \<Rightarrow> int \<times> call list" where
  "signal_child os pid sig tr =
     (let tr1 = tr @ [Getpgid pid]; pgid = os_ret os tr1 in
      if pgid < 0 then (-1, tr1)
      else if pgid = pid then
        (let tr2 = tr1 @ [Killpg pgid sig] in
         if os_ret os tr2 < 0 then (-1, tr2) else (0, tr2))
      else
        (let tr2 = tr1 @ [Kill pid sig] in
         if os_ret os tr2 < 0 then (-1, tr2) else (0, tr2)))"

text \<open>
  The macros of \<^verbatim>\<open><sys/wait.h>\<close> are not part of the repository:
  \<^verbatim>\<open>child_exit_code\<close> takes them as a parameter.
\<close>

record wait_macros =
  WIFEXITED :: "int \<Rightarrow> bool"
  WEXITSTATUS :: "int \<Rightarrow> int"
  WIFSIGNALED :: "int \<Rightarrow> bool"
  WTERMSIG :: "int \<Rightarrow> int"

definition child_exit_code :: "wait_macros \<Rightarrow> int \<Rightarrow> int" where
  "child_exit_code w status =
     (if WIFEXITED w status then WEXITSTATUS w status
      else if WIFSIGNALED w status then 128 + WTERMSIG w status
      else 1)"

text \<open>
  The macros as the GNU C library defines them, on the status as a 32-bit value:
  the low seven bits are the terminating signal, bits 8 to 15 the exit value.
\<close>

definition glibc_wait :: wait_macros where
  "glibc_wait =
     \<lparr>WIFEXITED = (\<lambda>s. (word_of_int s :: u32) AND 0x7f = 0),
      WEXITSTATUS = (\<lambda>s. uint (drop_bit 8 ((word_of_int s :: u32) AND 0xff00))),
      WIFSIGNALED = (\<lambda>s. 0 < sint (signed_drop_bit 1
                      (ucast (((word_of_int s :: u32) AND 0x7f) + 1) :: 8 word))),
      WTERMSIG = (\<lambda>s. uint ((word_of_int s :: u32) AND 0x7f))\<rparr>"

subsection \<open>Frame decoder\<close>

definition be32 :: "u8 \<Rightarrow> u8 \<Rightarrow> u8 \<Rightarrow> u8 \<Rightarrow> u32" where
  "be32 b1 b2 b3 b4 =
     push_bit 24 (ucast b1) OR push_bit 16 (ucast b2) OR push_bit 8 (ucast b3) OR ucast b4"

definition be16 :: "u8 \<Rightarrow> u8 \<Rightarrow> u16" where
  "be16 b1 b2 = push_bit 8 (ucast b1) OR ucast b2"

text \<open>\<^verbatim>\<open>parser_consume (p, n); continue;\<close>\<close>

definition consume_continue ::
  "call list \<Rightarrow> parser \<Rightarrow> size_t \<Rightarrow> fault + flow \<times> call list \<times> parser" where
  "consume_continue tr p n =
     (case parser_consume p n of
        Inl f \<Rightarrow> Inl f
      | Inr p' \<Rightarrow> Inr (Continue, tr, p'))"

text \<open>
  The branch for \<^verbatim>\<open>OPCODE_DATA\<close>. The sum \<^verbatim>\<open>5 + n\<close> is computed in
  \<^verbatim>\<open>uint32_t\<close> and converted to \<^verbatim>\<open>size_t\<close> afterwards, in both places.
\<close>

definition data_frame ::
  "os \<Rightarrow> int \<Rightarrow> call list \<Rightarrow> parser \<Rightarrow> (fault + flow \<times> call list \<times> parser) option" where
  "data_frame os master_fd tr p =
     (if len p < 5 then Some (Inr (Return 0, tr, p))
      else if length (buf p) < 5 then Some (Inl OutOfBounds)
      else
        (let n = be32 (buf p ! 1) (buf p ! 2) (buf p ! 3) (buf p ! 4) in
         if len p < ucast (5 + n) then Some (Inr (Return 0, tr, p))
         else if 0 < n then
           (if length (buf p) < 5 + unat n then Some (Inl OutOfBounds)
            else
              (case write_all os master_fd (take (unat n) (drop 5 (buf p))) (ucast n) tr of
                 None \<Rightarrow> None
               | Some (rc, tr') \<Rightarrow>
                   if rc \<noteq> 0 then Some (Inr (Return (-1), tr', p))
                   else Some (consume_continue tr' p (ucast (5 + n)))))
         else Some (consume_continue tr p (ucast (5 + n)))))"

definition resize_frame ::
  "os \<Rightarrow> int \<Rightarrow> int \<Rightarrow> call list \<Rightarrow> parser \<Rightarrow> fault + flow \<times> call list \<times> parser" where
  "resize_frame os master_fd child_pid tr p =
     (if len p < 5 then Inr (Return 0, tr, p)
      else if length (buf p) < 5 then Inl OutOfBounds
      else
        (let cols = be16 (buf p ! 1) (buf p ! 2);
             rows = be16 (buf p ! 3) (buf p ! 4);
             ws = \<lparr>ws_row = rows, ws_col = cols, ws_xpixel = 0, ws_ypixel = 0\<rparr>;
             tr1 = tr @ [Ioctl_TIOCSWINSZ master_fd ws]
         in if os_ret os tr1 \<noteq> 0 then Inr (Return (-1), tr1, p)
            else consume_continue (snd (signal_child os child_pid SIGWINCH tr1)) p 5))"

definition close_frame ::
  "os \<Rightarrow> int \<Rightarrow> call list \<Rightarrow> parser \<Rightarrow> fault + flow \<times> call list \<times> parser" where
  "close_frame os child_pid tr p =
     consume_continue (snd (signal_child os child_pid SIGHUP tr)) p 1"

text \<open>One pass through the body of the \<^verbatim>\<open>while (p->len > 0)\<close> loop.\<close>

definition frame_body ::
  "os \<Rightarrow> int \<Rightarrow> int \<Rightarrow> call list \<Rightarrow> parser \<Rightarrow>
   (fault + flow \<times> call list \<times> parser) option" where
  "frame_body os master_fd child_pid tr p =
     (if length (buf p) < 1 then Some (Inl OutOfBounds)
      else
        (let opcode = buf p ! 0 in
         if opcode = OPCODE_DATA then data_frame os master_fd tr p
         else if opcode = OPCODE_RESIZE then Some (resize_frame os master_fd child_pid tr p)
         else if opcode = OPCODE_CLOSE then Some (close_frame os child_pid tr p)
         else Some (consume_continue tr p 1)))"

partial_function (option) parse_and_apply_frames ::
  "os \<Rightarrow> int \<Rightarrow> int \<Rightarrow> call list \<Rightarrow> parser \<Rightarrow>
   (fault + int \<times> call list \<times> parser) option" where
  "parse_and_apply_frames os master_fd child_pid tr p =
     (if 0 < len p then
        (case frame_body os master_fd child_pid tr p of
           None \<Rightarrow> None
         | Some (Inl f) \<Rightarrow> Some (Inl f)
         | Some (Inr (Return rc, tr', p')) \<Rightarrow> Some (Inr (rc, tr', p'))
         | Some (Inr (Continue, tr', p')) \<Rightarrow>
             parse_and_apply_frames os master_fd child_pid tr' p')
      else Some (Inr (0, tr, p)))"

subsection \<open>Session loop\<close>

text \<open>
  The locals of \<^verbatim>\<open>main\<close> that live across the iterations of its \<^verbatim>\<open>for (;;)\<close>
  loop: \<^verbatim>\<open>stdin_open\<close>, the parser \<^verbatim>\<open>p\<close> and the 65536 bytes of \<^verbatim>\<open>io_buf\<close>.
\<close>

record session =
  stdin_open :: bool
  parser_p :: parser
  io_buf :: "u8 list"

text \<open>\<^verbatim>\<open>parser_deinit (&p); close (master_fd);\<close> as every exit path of the loop does.\<close>

definition teardown :: "call list \<Rightarrow> parser \<Rightarrow> int \<Rightarrow> call list" where
  "teardown tr p master_fd = fst (parser_deinit tr p) @ [Close master_fd]"

text \<open>The block after a \<^verbatim>\<open>read\<close> that returned \<open>n > 0\<close> and stored \<open>data\<close>.\<close>

definition read_into :: "u8 list \<Rightarrow> u8 list \<Rightarrow> int \<Rightarrow> u8 list" where
  "read_into old data n =
     (let d = take (nat n) data in take (length old) (d @ drop (length d) old))"

text \<open>The block \<^verbatim>\<open>if (stdin_open && FD_ISSET (STDIN_FILENO, &readfds))\<close>.\<close>

definition stdin_ready ::
  "os \<Rightarrow> int \<Rightarrow> int \<Rightarrow> call list \<Rightarrow> session \<Rightarrow>
   (fault + flow \<times> call list \<times> session) option" where
  "stdin_ready os master_fd pid tr st =
     (let tr1 = tr @ [Read STDIN_FILENO 65536]; n = os_ret os tr1 in
      if n = 0 then Some (Inr (Continue, tr1, st\<lparr>stdin_open := False\<rparr>))
      else if n < 0 then
        (if os_errno os tr1 \<noteq> EINTR then Some (Inr (Continue, tr1, st\<lparr>stdin_open := False\<rparr>))
         else Some (Inr (Continue, tr1, st)))
      else
        (let io = read_into (io_buf st) (os_data os tr1) n in
         case parser_append os tr1 (parser_p st) io (word_of_int n) of
           None \<Rightarrow> None
         | Some (Inl f) \<Rightarrow> Some (Inl f)
         | Some (Inr (rc, tr2, p2)) \<Rightarrow>
             if rc \<noteq> 0
             then Some (Inr (Return 1, teardown tr2 p2 master_fd, st\<lparr>io_buf := io\<rparr>))
             else
               (case parse_and_apply_frames os master_fd pid tr2 p2 of
                  None \<Rightarrow> None
                | Some (Inl f) \<Rightarrow> Some (Inl f)
                | Some (Inr (rc', tr3, p3)) \<Rightarrow>
                    if rc' \<noteq> 0
                    then Some (Inr (Return 1, teardown tr3 p3 master_fd, st\<lparr>io_buf := io\<rparr>))
                    else Some (Inr (Continue, tr3, st\<lparr>parser_p := p3, io_buf := io\<rparr>)))))"

text \<open>The block \<^verbatim>\<open>if (FD_ISSET (master_fd, &readfds))\<close>.\<close>

definition master_ready ::
  "os \<Rightarrow> wait_macros \<Rightarrow> int \<Rightarrow> int \<Rightarrow> call list \<Rightarrow> session \<Rightarrow>
   (fault + flow \<times> call list \<times> session) option" where
  "master_ready os w master_fd pid tr st =
     (let tr1 = tr @ [Read master_fd 65536]; n = os_ret os tr1 in
      if n = 0 then
        (let tr2 = tr1 @ [Waitpid pid 0];
             status = (if os_ret os tr2 = pid then os_status os tr2 else 0)
         in Some (Inr (Return (child_exit_code w status),
                       teardown tr2 (parser_p st) master_fd, st)))
      else if n < 0 then
        (if os_errno os tr1 = EINTR then Some (Inr (Continue, tr1, st))
         else Some (Inr (Return 1, teardown tr1 (parser_p st) master_fd, st)))
      else
        (let io = read_into (io_buf st) (os_data os tr1) n in
         if length io < nat n then Some (Inl OutOfBounds)
         else
           (case write_all os STDOUT_FILENO (take (nat n) io) (word_of_int n) tr1 of
              None \<Rightarrow> None
            | Some (rc, tr2) \<Rightarrow>
                if rc \<noteq> 0
                then Some (Inr (Return 1, teardown tr2 (parser_p st) master_fd,
                                st\<lparr>io_buf := io\<rparr>))
                else Some (Inr (Continue, tr2, st\<lparr>io_buf := io\<rparr>)))))"

text \<open>One pass through the body of the \<^verbatim>\<open>for (;;)\<close> loop of \<^verbatim>\<open>main\<close>.\<close>

definition session_body ::
  "os \<Rightarrow> wait_macros \<Rightarrow> int \<Rightarrow> int \<Rightarrow> call list \<Rightarrow> session \<Rightarrow>
   (fault + flow \<times> call list \<times> session) option" where
  "session_body os w master_fd pid tr st =
     (let tr1 = tr @ [Waitpid pid WNOHANG] in
      if os_ret os tr1 = pid
      then Some (Inr (Return (child_exit_code w (os_status os tr1)),
                      teardown tr1 (parser_p st) master_fd, st))
      else
        (let fds = (if stdin_open st then [STDIN_FILENO] else []) @ [master_fd];
             tr2 = tr1 @ [Select fds 100000]
         in if os_ret os tr2 < 0 then
              (if os_errno os tr2 = EINTR then Some (Inr (Continue, tr2, st))
               else Some (Inr (Return 1, teardown tr2 (parser_p st) master_fd, st)))
            else
              (case (if stdin_open st \<and> STDIN_FILENO \<in> set (os_ready os tr2)
                     then stdin_ready os master_fd pid tr2 st
                     else Some (Inr (Continue, tr2, st))) of
                 None \<Rightarrow> None
               | Some (Inl f) \<Rightarrow> Some (Inl f)
               | Some (Inr (Return rc, tr3, st3)) \<Rightarrow> Some (Inr (Return rc, tr3, st3))
               | Some (Inr (Continue, tr3, st3)) \<Rightarrow>
                   if master_fd \<in> set (os_ready os tr2)
                   then master_ready os w master_fd pid tr3 st3
                   else Some (Inr (Continue, tr3, st3)))))"

text \<open>
  The loop itself: the exit code \<^verbatim>\<open>main\<close> returns and the history at that point,
  \<open>None\<close> when the session never ends.
\<close>

partial_function (option) main_loop ::
  "os \<Rightarrow> wait_macros \<Rightarrow> int \<Rightarrow> int \<Rightarrow> call list \<Rightarrow> session \<Rightarrow>
   (fault + int \<times> call list) option" where
  "main_loop os w master_fd pid tr st =
     (case session_body os w master_fd pid tr st of
        None \<Rightarrow> None
      | Some (Inl f) \<Rightarrow> Some (Inl f)
      | Some (Inr (Return rc, tr', st')) \<Rightarrow> Some (Inr (rc, tr'))
      | Some (Inr (Continue, tr', st')) \<Rightarrow> main_loop os w master_fd pid tr' st')"

subsection \<open>Well-formed buffers, call sequences and sample environments\<close>

text \<open>
  The block that \<open>buf\<close> points to has exactly \<open>cap\<close> bytes, and \<open>len\<close> does not
  exceed \<open>cap\<close>.
\<close>

definition parser_ok :: "parser \<Rightarrow> bool" where
  "parser_ok p \<longleftrightarrow> length (buf p) = unat (cap p) \<and> len p \<le> cap p"

text \<open>
  A sequence of \<^verbatim>\<open>parser_append\<close> calls, one per chunk and each with the whole
  chunk, that stops at the first call that does not return 0.
\<close>

fun append_all ::
  "os \<Rightarrow> call list \<Rightarrow> parser \<Rightarrow> u8 list list \<Rightarrow>
   (fault + int \<times> call list \<times> parser) option" where
  "append_all os tr p [] = Some (Inr (0, tr, p))"
| "append_all os tr p (d # ds) =
     (case parser_append os tr p d (word_of_nat (length d)) of
        None \<Rightarrow> None
      | Some (Inl f) \<Rightarrow> Some (Inl f)
      | Some (Inr (rc, tr', p')) \<Rightarrow>
          if rc = 0 then append_all os tr' p' ds else Some (Inr (rc, tr', p')))"

text \<open>
  An environment in which every call succeeds: a \<^verbatim>\<open>write\<close> takes all the bytes
  it is given, the child leads its own process group and is still running.
\<close>

definition all_succeed :: os where
  "all_succeed =
     \<lparr>os_ret = (\<lambda>tr. case last tr of
                        Write fd bs \<Rightarrow> int (length bs)
                      | Getpgid pid \<Rightarrow> pid
                      | Malloc n \<Rightarrow> 1
                      | Realloc n \<Rightarrow> 1
                      | _ \<Rightarrow> 0),
      os_errno = (\<lambda>tr. 0),
      os_data = (\<lambda>tr. []),
      os_status = (\<lambda>tr. 0),
      os_ready = (\<lambda>tr. []),
      os_junk = (\<lambda>i. 0)\<rparr>"

text \<open>
  A buffer of capacity \<open>2 ^ 32\<close>, which is \<open>8192 * 2 ^ 19\<close>, that holds the five
  bytes of a Data header with length field \<^verbatim>\<open>0xFFFFFFFB\<close>.
\<close>

definition big_block :: "u8 list" where
  "big_block = replicate (2 ^ 32 - 5) 0"

definition stuck :: parser where
  "stuck = \<lparr>buf = [0x01, 0xFF, 0xFF, 0xFF, 0xFB] @ big_block, len = 5, cap = 2 ^ 32\<rparr>"

text \<open>The window size a Resize frame at the front of the buffer carries.\<close>

definition window_of :: "parser \<Rightarrow> winsize" where
  "window_of p =
     \<lparr>ws_row = be16 (buf p ! 3) (buf p ! 4), ws_col = be16 (buf p ! 1) (buf p ! 2),
      ws_xpixel = 0, ws_ypixel = 0\<rparr>"

text \<open>
  The pass through the session loop that starts with history \<open>tr0\<close> in state \<open>st\<close>
  finds the child running and controller input readable, reads a positive number of
  bytes, appends them, and hands the decoder the buffer \<open>p\<close> at history \<open>tr\<close>.
\<close>

definition feeds ::
  "os \<Rightarrow> int \<Rightarrow> int \<Rightarrow> call list \<Rightarrow> session \<Rightarrow> call list \<Rightarrow> parser \<Rightarrow> bool" where
  "feeds os master_fd pid tr0 st tr p \<longleftrightarrow>
     (let t1 = tr0 @ [Waitpid pid WNOHANG];
          t2 = t1 @ [Select [STDIN_FILENO, master_fd] 100000];
          t3 = t2 @ [Read STDIN_FILENO 65536];
          n = os_ret os t3
      in os_ret os t1 \<noteq> pid \<and> 0 \<le> os_ret os t2 \<and> stdin_open st \<and>
         STDIN_FILENO \<in> set (os_ready os t2) \<and> 0 < n \<and>
         parser_append os t3 (parser_p st) (read_into (io_buf st) (os_data os t3) n)
           (word_of_int n) = Some (Inr (0, tr, p)))"

text \<open>
  An environment whose answers depend on the call alone: \<open>f\<close> gives the return value,
  and \<^verbatim>\<open>errno\<close>, the bytes read, the wait status and the ready set are fixed.
\<close>

definition scripted :: "(call \<Rightarrow> int) \<Rightarrow> int \<Rightarrow> u8 list \<Rightarrow> int \<Rightarrow> int list \<Rightarrow> os" where
  "scripted f e d s r =
     \<lparr>os_ret = (\<lambda>tr. f (last tr)), os_errno = (\<lambda>tr. e), os_data = (\<lambda>tr. d),
      os_status = (\<lambda>tr. s), os_ready = (\<lambda>tr. r), os_junk = (\<lambda>i. 0)\<rparr>"

text \<open>
  A session at the start of the loop, with a small buffer, and a buffer of the capacity
  \<^verbatim>\<open>main\<close> asks for that holds the five bytes \<^verbatim>\<open>01 FF FF FF FF\<close>.
\<close>

definition session0 :: session where
  "session0 =
     \<lparr>stdin_open = True,
      parser_p = \<lparr>buf = [0, 0, 0, 0, 0, 0, 0, 0], len = 0, cap = 8\<rparr>,
      io_buf = replicate 65536 0\<rparr>"

definition wrapping :: parser where
  "wrapping = \<lparr>buf = [0x01, 0xFF, 0xFF, 0xFF, 0xFF] @ replicate 8187 0, len = 5, cap = 8192\<rparr>"

text \<open>
  An environment in which controller input delivers one Resize frame and the
  window-size call fails.
\<close>

definition resize_denied :: os where
  "resize_denied =
     scripted (\<lambda>c. case c of
                   Select fds t \<Rightarrow> 1
                 | Read fd n \<Rightarrow> 5
                 | Ioctl_TIOCSWINSZ fd ws \<Rightarrow> - 1
                 | _ \<Rightarrow> 0)
       0 [0x02, 0x00, 0x50, 0x00, 0x18] 0 [0]"

text \<open>The length field of a Data frame at the front of the buffer.\<close>

definition data_length :: "parser \<Rightarrow> u32" where
  "data_length p = be32 (buf p ! 1) (buf p ! 2) (buf p ! 3) (buf p ! 4)"

text \<open>
  Environments for the session loop: the child has exited while the pseudoterminal
  still holds the two bytes \<^verbatim>\<open>hi\<close>; a read of controller input returns \<open>n\<close> with
  \<^verbatim>\<open>errno\<close> \<open>e\<close> and the pseudoterminal is silent; controller input is at its end
  while the pseudoterminal holds \<^verbatim>\<open>hi\<close>.
\<close>

definition exited_with_output :: os where
  "exited_with_output =
     scripted (\<lambda>c. case c of
                   Waitpid p opts \<Rightarrow> 100
                 | Select fds t \<Rightarrow> 1
                 | Read fd n \<Rightarrow> 2
                 | Write fd bs \<Rightarrow> int (length bs)
                 | _ \<Rightarrow> 0)
       0 [0x68, 0x69] 0 [5]"

definition stdin_answers :: "int \<Rightarrow> int \<Rightarrow> os" where
  "stdin_answers n e =
     scripted (\<lambda>c. case c of Select fds t \<Rightarrow> 1 | Read fd k \<Rightarrow> n | _ \<Rightarrow> 0) e [] 0 [0]"

definition eof_with_output :: os where
  "eof_with_output =
     scripted (\<lambda>c. case c of
                   Select fds t \<Rightarrow> 2
                 | Read fd k \<Rightarrow> (if fd = STDIN_FILENO then 0 else 2)
                 | Write fd bs \<Rightarrow> int (length bs)
                 | _ \<Rightarrow> 0)
       0 [0x68, 0x69] 0 [0, 5]"

text \<open>
  No Data header anywhere in the bytes has a length field \<open>n\<close> for which
  \<^verbatim>\<open>5 + n\<close> wraps in \<^verbatim>\<open>uint32_t\<close>.
\<close>

definition no_wrap :: "u8 list \<Rightarrow> bool" where
  "no_wrap bs \<longleftrightarrow>
     (\<forall>i<length bs - 4. bs ! i = OPCODE_DATA \<longrightarrow>
        5 + unat (be32 (bs ! (i + 1)) (bs ! (i + 2)) (bs ! (i + 3)) (bs ! (i + 4))) < 2 ^ 32)"

section \<open>Properties of the frame buffer\<close>

lemmas decoder_defs = frame_body_def data_frame_def resize_frame_def close_frame_def
  consume_continue_def parser_consume_def signal_child_def write_all_def
  memmove_def memcpy_def be32_def be16_def
  OPCODE_DATA_def OPCODE_RESIZE_def OPCODE_CLOSE_def SIGHUP_def SIGWINCH_def EINTR_def

lemma unat_sub_lt: "n < (l::size_t) \<Longrightarrow> unat (l - n) = unat l - unat n"
  by (simp add: unat_sub less_imp_le)

lemma parser_ok_len: "parser_ok p \<Longrightarrow> unat (len p) \<le> length (buf p)"
  by (simp add: parser_ok_def word_le_nat_alt)

lemma length_memcpy:
  "off + length src \<le> length dst \<Longrightarrow> length (memcpy dst off src) = length dst"
  by (simp add: memcpy_def)

lemma take_memcpy:
  "off \<le> length dst \<Longrightarrow> take (off + length src) (memcpy dst off src) = take off dst @ src"
  by (simp add: memcpy_def)

lemma length_realloc_block:
  "length bs \<le> n \<Longrightarrow> length (realloc_block junk bs n) = n"
  by (simp add: realloc_block_def fresh_bytes_def)

lemma take_realloc_block:
  "k \<le> length bs \<Longrightarrow> length bs \<le> n \<Longrightarrow> take k (realloc_block junk bs n) = take k bs"
  by (simp add: realloc_block_def)

lemma parser_init_ok:
  assumes "parser_init os tr c = (0, tr1, p0)"
  shows "parser_ok p0 \<and> pending p0 = [] \<and> cap p0 = c \<and> len p0 = 0"
  using assms
  by (auto simp add: parser_init_def Let_def parser_ok_def pending_def fresh_bytes_def
      split: if_splits)

text \<open>Consuming from a buffer whose pending bytes lie inside the block.\<close>

lemma parser_consume_ok:
  assumes "unat (len p) \<le> length (buf p)"
  shows "\<exists>p'. parser_consume p n = Inr p' \<and> pending p' = drop (unat n) (pending p) \<and>
           len p' = (if len p \<le> n then 0 else len p - n) \<and> cap p' = cap p \<and>
           length (buf p') = length (buf p)"
proof (cases "len p \<le> n")
  case True
  then have "unat (len p) \<le> unat n" by (simp add: word_le_nat_alt)
  with True show ?thesis by (simp add: parser_consume_def pending_def)
next
  case False
  then have lt: "n < len p" by simp
  then have u: "unat (len p - n) = unat (len p) - unat n" by (rule unat_sub_lt)
  from lt have "unat n < unat (len p)" by (simp add: word_less_nat_alt)
  with assms u False show ?thesis
    by (simp add: parser_consume_def pending_def memmove_def memcpy_def drop_take min_def)
qed

text \<open>What the doubling loop returns, when it returns.\<close>

lemma grow_cap_result:
  assumes "grow_cap c need = Some r"
  shows "need \<le> r \<and> (\<exists>j. r = c * 2 ^ j \<and> (\<forall>i<j. c * 2 ^ i < need))"
proof (rule grow_cap.raw_induct
    [where P = "\<lambda>c need r. need \<le> r \<and> (\<exists>j. r = c * 2 ^ j \<and> (\<forall>i<j. c * 2 ^ i < need))",
      OF _ assms], goal_cases)
  case (1 grow c need r)
  show ?case
  proof (cases "c < need")
    case True
    with 1(2) have "grow (c * 2) need = Some r" by simp
    from 1(1) [OF this] obtain j where le: "need \<le> r" and r: "r = c * 2 * 2 ^ j"
      and m: "\<forall>i<j. c * 2 * 2 ^ i < need" by blast
    have "\<forall>i<Suc j. c * 2 ^ i < need"
    proof (intro allI impI)
      fix i assume "i < Suc j"
      show "c * 2 ^ i < need"
      proof (cases i)
        case 0
        with True show ?thesis by simp
      next
        case (Suc i')
        with \<open>i < Suc j\<close> m have "c * 2 * 2 ^ i' < need" by simp
        with Suc show ?thesis by (simp add: mult.assoc)
      qed
    qed
    moreover have "r = c * 2 ^ Suc j" using r by (simp add: mult.assoc)
    ultimately show ?thesis using le by blast
  next
    case False
    with 1(2) have "r = c" by simp
    with False show ?thesis by (intro conjI exI [of _ 0]) simp_all
  qed
qed

text \<open>
  The doubling loop ends when it starts from a capacity that is not 0 and the size it
  has to reach is at most \<open>2 ^ 63\<close>: no product wraps before the size is reached.
\<close>

lemma grow_cap_terminates:
  assumes "0 < c" "unat need \<le> 2 ^ 63"
  shows "\<exists>r. grow_cap c need = Some r"
  using assms(1)
proof (induction "unat need - unat c" arbitrary: c rule: less_induct)
  case less
  show ?case
  proof (cases "c < need")
    case True
    then have lt: "unat c < unat need" by (simp add: word_less_nat_alt)
    with assms(2) have "unat c * unat (2 :: size_t) < 2 ^ LENGTH(64)" by simp
    then have u: "unat (c * 2) = unat c * 2" by (simp add: unat_mult_lem [THEN iffD1])
    from less.prems have "0 < unat c" by (simp add: word_less_nat_alt)
    with u have pos: "0 < c * 2" by (simp add: word_less_nat_alt)
    from u lt \<open>0 < unat c\<close> have "unat need - unat (c * 2) < unat need - unat c" by simp
    from less.hyps [OF this pos] obtain r where "grow_cap (c * 2) need = Some r" ..
    with True show ?thesis by (subst grow_cap.simps) simp
  next
    case False
    then show ?thesis by (subst grow_cap.simps) simp
  qed
qed

lemma append_copy_result:
  assumes "append_copy tr p data n = Inr (rc, tr', p')" "length (buf p) < 2 ^ 64"
  shows "rc = 0 \<and> tr' = tr \<and> pending p' = pending p @ take (unat n) data \<and>
         len p' = len p + n \<and> unat (len p') = unat (len p) + unat n \<and>
         cap p' = cap p \<and> length (buf p') = length (buf p)"
proof -
  from assms(1) have a: "unat n \<le> length data" and b: "unat (len p) + unat n \<le> length (buf p)"
    and p': "p' = p\<lparr>buf := memcpy (buf p) (unat (len p)) (take (unat n) data), len := len p + n\<rparr>"
    and rc: "rc = 0" "tr' = tr"
    by (auto simp add: append_copy_def split: if_splits)
  from b assms(2) have "unat (len p) + unat n < 2 ^ LENGTH(64)" by simp
  then have u: "unat (len p + n) = unat (len p) + unat n" by (simp add: unat_add_lem [THEN iffD1])
  from a have l: "length (take (unat n) data) = unat n" by simp
  from b have "unat (len p) \<le> length (buf p)" by simp
  from take_memcpy [OF this, of "take (unat n) data"]
  have t: "take (unat (len p) + unat n) (memcpy (buf p) (unat (len p)) (take (unat n) data))
           = take (unat (len p)) (buf p) @ take (unat n) data"
    by (simp only: l)
  from b l have "length (memcpy (buf p) (unat (len p)) (take (unat n) data)) = length (buf p)"
    by (simp add: length_memcpy)
  with t u show ?thesis
    by (simp add: p' rc pending_def)
qed

text \<open>Everything a returning \<^verbatim>\<open>parser_append\<close> does to a well-formed buffer.\<close>

lemma parser_append_result:
  assumes ok: "parser_ok p" and r: "parser_append os tr p data n = Some (Inr (rc, tr', p'))"
  shows "parser_ok p' \<and> cap p \<le> cap p' \<and>
         (rc = 0 \<longrightarrow> pending p' = pending p @ take (unat n) data \<and>
                      unat (len p') = unat (len p) + unat n) \<and>
         (rc \<noteq> 0 \<longrightarrow> p' = p) \<and>
         (cap p < len p + n \<and> rc = 0 \<longrightarrow>
            (\<exists>j>0. cap p' = cap p * 2 ^ j \<and> len p + n \<le> cap p' \<and>
                   (\<forall>i. 0 < i \<and> i < j \<longrightarrow> cap p * 2 ^ i < len p + n))) \<and>
         (\<not> cap p < len p + n \<longrightarrow> cap p' = cap p)"
proof (cases "n = 0")
  case True
  from ok have "\<not> cap p < len p" by (auto simp add: parser_ok_def)
  with True r ok show ?thesis by (auto simp add: parser_append_def)
next
  case n0: False
  from ok have lb: "length (buf p) = unat (cap p)" and lc: "len p \<le> cap p"
    by (simp_all add: parser_ok_def)
  show ?thesis
  proof (cases "cap p < len p + n")
    case False
    with r n0 have ac: "append_copy tr p data n = Inr (rc, tr', p')"
      by (simp add: parser_append_def)
    from lb have "length (buf p) < 2 ^ 64" using unsigned_less [of "cap p", where 'a = nat] by simp
    from append_copy_result [OF ac this] False lb show ?thesis
      by (auto simp add: parser_ok_def not_less)
  next
    case True
    with r n0 obtain c' where g: "grow_cap (cap p * 2) (len p + n) = Some c'"
      by (auto simp add: parser_append_def split: option.splits)
    from grow_cap_result [OF g] obtain j where need: "len p + n \<le> c'"
      and c': "c' = cap p * 2 * 2 ^ j" and m: "\<forall>i<j. cap p * 2 * 2 ^ i < len p + n" by blast
    from True need have capc: "cap p \<le> c'" by simp
    have growth: "\<exists>j>0. c' = cap p * 2 ^ j \<and> len p + n \<le> c' \<and>
                   (\<forall>i. 0 < i \<and> i < j \<longrightarrow> cap p * 2 ^ i < len p + n)"
    proof (intro exI [of _ "Suc j"] conjI allI impI)
      show "c' = cap p * 2 ^ Suc j" using c' by (simp add: mult.assoc)
      show "len p + n \<le> c'" by (rule need)
      fix i assume "0 < i \<and> i < Suc j"
      then obtain i' where "i = Suc i'" "i' < j" by (cases i) auto
      with m show "cap p * 2 ^ i < len p + n" by (simp add: mult.assoc)
    qed simp
    show ?thesis
    proof (cases "os_ret os (tr @ [Realloc c']) = 0")
      case fail: True
      with r n0 True g have "rc = - 1" "p' = p" by (simp_all add: parser_append_def)
      with ok True show ?thesis by simp
    next
      case succ: False
      let ?q = "p\<lparr>buf := realloc_block (os_junk os) (buf p) (unat c'), cap := c'\<rparr>"
      from r n0 True g succ have ac: "append_copy (tr @ [Realloc c']) ?q data n = Inr (rc, tr', p')"
        by (simp add: parser_append_def)
      from capc lb have le: "length (buf p) \<le> unat c'" by (simp add: word_le_nat_alt)
      then have lq: "length (buf ?q) = unat c'" by (simp add: length_realloc_block)
      then have "length (buf ?q) < 2 ^ 64" using unsigned_less [of c', where 'a = nat] by simp
      note res = append_copy_result [OF ac this]
      from lc lb have "unat (len p) \<le> length (buf p)" by (simp add: word_le_nat_alt)
      with le have pq: "pending ?q = pending p" by (simp add: pending_def take_realloc_block)
      from res lq pq need growth True show ?thesis
        by (auto simp add: parser_ok_def capc)
    qed
  qed
qed

lemma unat_word_of_nat_length:
  "length (d::'a list) < 2 ^ 64 \<Longrightarrow> unat (word_of_nat (length d) :: size_t) = length d"
  by (simp add: unat_of_nat)

lemma parser_append_returns:
  assumes ok: "parser_ok p" and pos: "0 < cap p" and small: "unat (len p) + unat n \<le> 2 ^ 63"
  shows "\<exists>r. parser_append os tr p data n = Some r"
proof (cases "n \<noteq> 0 \<and> cap p < len p + n")
  case False
  then show ?thesis by (auto simp add: parser_append_def)
next
  case True
  from small have "unat (len p) + unat n < 2 ^ LENGTH(64)" by simp
  then have u: "unat (len p + n) = unat (len p) + unat n" by (simp add: unat_add_lem [THEN iffD1])
  with small have need: "unat (len p + n) \<le> 2 ^ 63" by simp
  from True have "unat (cap p) < unat (len p + n)" by (simp add: word_less_nat_alt)
  with need have "unat (cap p) * unat (2 :: size_t) < 2 ^ LENGTH(64)" by simp
  then have "unat (cap p * 2) = unat (cap p) * 2" by (simp add: unat_mult_lem [THEN iffD1])
  moreover from pos have "0 < unat (cap p)" by (simp add: word_less_nat_alt)
  ultimately have "0 < cap p * 2" by (simp add: word_less_nat_alt)
  from grow_cap_terminates [OF this need] obtain r where "grow_cap (cap p * 2) (len p + n) = Some r" ..
  with True show ?thesis by (simp add: parser_append_def Let_def)
qed

lemma append_all_result:
  assumes "parser_ok p" "append_all os tr p ds = Some (Inr (0, tr', p'))"
    and "\<forall>d\<in>set ds. length d < 2 ^ 64"
  shows "parser_ok p' \<and> pending p' = pending p @ concat ds"
  using assms
proof (induction ds arbitrary: tr p)
  case Nil
  then show ?case by simp
next
  case (Cons d ds)
  from Cons.prems(2) obtain tr1 p1
    where a: "parser_append os tr p d (word_of_nat (length d)) = Some (Inr (0, tr1, p1))"
      and b: "append_all os tr1 p1 ds = Some (Inr (0, tr', p'))"
    by (auto split: option.splits sum.splits if_splits)
  from Cons.prems(3) have "unat (word_of_nat (length d) :: size_t) = length d"
    by (simp add: unat_word_of_nat_length)
  with parser_append_result [OF Cons.prems(1) a]
  have ok1: "parser_ok p1" and p1: "pending p1 = pending p @ d" by simp_all
  from Cons.prems(3) have "\<forall>d\<in>set ds. length d < 2 ^ 64" by simp
  from Cons.IH [OF ok1 b this] p1 show ?case by simp
qed

text \<open>
  C3. After any sequence of appends to a freshly initialised buffer that all returned 0,
  consuming \<open>k\<close> bytes, with \<open>k\<close> at most the number of bytes appended, leaves
  exactly the appended bytes from offset \<open>k\<close> on, in order; and consuming at least
  \<open>len\<close> bytes leaves the buffer empty.
\<close>

theorem buffer_round_trip:
  assumes "parser_init os tr c = (0, tr1, p0)"
    and "append_all os tr1 p0 ds = Some (Inr (0, tr2, p))"
    and "\<forall>d\<in>set ds. length d < 2 ^ 64"
  shows "(k \<le> length (concat ds) \<longrightarrow>
            (\<exists>q. parser_consume p (word_of_nat k) = Inr q \<and> pending q = drop k (concat ds))) \<and>
         (len p \<le> j \<longrightarrow> (\<exists>q. parser_consume p j = Inr q \<and> pending q = [] \<and> len q = 0))"
proof -
  from parser_init_ok [OF assms(1)] have ok0: "parser_ok p0" and e: "pending p0 = []" by simp_all
  from append_all_result [OF ok0 assms(2,3)] e
  have ok: "parser_ok p" and c: "pending p = concat ds" by simp_all
  note l = parser_ok_len [OF ok]
  have first: "\<exists>q. parser_consume p (word_of_nat k) = Inr q \<and> pending q = drop k (concat ds)"
    if k: "k \<le> length (concat ds)"
  proof -
    from l have "length (pending p) = unat (len p)" by (simp add: pending_def)
    with c have "length (concat ds) = unat (len p)" by simp
    with k have "k \<le> unat (len p)" by simp
    then have "unat (word_of_nat k :: size_t) = k" by (rule le_unat_uoi)
    with parser_consume_ok [OF l, of "word_of_nat k"] c show ?thesis by auto
  qed
  have second: "\<exists>q. parser_consume p j = Inr q \<and> pending q = [] \<and> len q = 0" if "len p \<le> j"
    using that by (simp add: parser_consume_def pending_def)
  from first second show ?thesis by blast
qed

text \<open>Two appends of three and six bytes to a buffer of capacity 4.\<close>

lemma init_eval:
  "parser_init all_succeed [] 4 = (0, [Malloc 4], \<lparr>buf = [0, 0, 0, 0], len = 0, cap = 4\<rparr>)"
  by (simp add: parser_init_def all_succeed_def fresh_bytes_def upt_conv_Cons)

lemma append_eval1:
  "parser_append all_succeed [Malloc 4] \<lparr>buf = [0, 0, 0, 0], len = 0, cap = 4\<rparr> [1, 2, 3] 3
     = Some (Inr (0, [Malloc 4], \<lparr>buf = [1, 2, 3, 0], len = 3, cap = 4\<rparr>))"
  by (simp add: parser_append_def append_copy_def grow_cap.simps all_succeed_def
        realloc_block_def fresh_bytes_def memcpy_def upt_conv_Cons)

lemma append_eval2:
  "parser_append all_succeed [Malloc 4] \<lparr>buf = [1, 2, 3, 0], len = 3, cap = 4\<rparr>
       [4, 5, 6, 7, 8, 9] 6
     = Some (Inr (0, [Malloc 4, Realloc 16],
         \<lparr>buf = [1, 2, 3, 4, 5, 6, 7, 8, 9, 0, 0, 0, 0, 0, 0, 0], len = 9, cap = 16\<rparr>))"
  by (simp add: parser_append_def append_copy_def grow_cap.simps all_succeed_def
        realloc_block_def fresh_bytes_def memcpy_def upt_conv_Cons)

lemma append_all_eval:
  "append_all all_succeed [Malloc 4] \<lparr>buf = [0, 0, 0, 0], len = 0, cap = 4\<rparr>
       [[1, 2, 3], [4, 5, 6, 7, 8, 9]]
     = Some (Inr (0, [Malloc 4, Realloc 16],
         \<lparr>buf = [1, 2, 3, 4, 5, 6, 7, 8, 9, 0, 0, 0, 0, 0, 0, 0], len = 9, cap = 16\<rparr>))"
  by (simp add: append_eval1 append_eval2)

theorem buffer_round_trip_witness:
  "parser_init all_succeed [] 4 = (0, [Malloc 4], \<lparr>buf = [0, 0, 0, 0], len = 0, cap = 4\<rparr>) \<and>
   append_all all_succeed [Malloc 4] \<lparr>buf = [0, 0, 0, 0], len = 0, cap = 4\<rparr>
       [[1, 2, 3], [4, 5, 6, 7, 8, 9]]
     = Some (Inr (0, [Malloc 4, Realloc 16],
         \<lparr>buf = [1, 2, 3, 4, 5, 6, 7, 8, 9, 0, 0, 0, 0, 0, 0, 0], len = 9, cap = 16\<rparr>)) \<and>
   (\<exists>q. parser_consume
          \<lparr>buf = [1, 2, 3, 4, 5, 6, 7, 8, 9, 0, 0, 0, 0, 0, 0, 0], len = 9, cap = 16\<rparr> 4 = Inr q \<and>
        pending q = [5, 6, 7, 8, 9]) \<and>
   (\<exists>q. parser_consume
          \<lparr>buf = [1, 2, 3, 4, 5, 6, 7, 8, 9, 0, 0, 0, 0, 0, 0, 0], len = 9, cap = 16\<rparr> 100 = Inr q \<and>
        pending q = [] \<and> len q = 0)"
proof -
  let ?p = "\<lparr>buf = [1, 2, 3, 4, 5, 6, 7, 8, 9, 0, 0, 0, 0, 0, 0, 0], len = 9, cap = 16 :: size_t\<rparr>"
  have s: "\<forall>d\<in>set [[1, 2, 3], [4, 5, 6, 7, 8, 9 :: u8]]. length d < 2 ^ 64" by simp
  from buffer_round_trip [OF init_eval append_all_eval s, of 4 100]
  have c1: "\<exists>q. parser_consume ?p 4 = Inr q \<and> pending q = [5, 6, 7, 8, 9]"
    and c2: "\<exists>q. parser_consume ?p 100 = Inr q \<and> pending q = [] \<and> len q = 0"
    by simp_all
  from init_eval append_all_eval c1 c2 show ?thesis by (intro conjI)
qed

text \<open>
  An append to a well-formed buffer, of bytes that the caller has, whose new length fits
  in \<^verbatim>\<open>size_t\<close>, stays inside the block: the capacity it has or has grown to
  covers the copy. It fails only when \<^verbatim>\<open>realloc\<close> does.
\<close>

lemma parser_append_safe:
  assumes ok: "parser_ok p" and src: "unat n \<le> length data"
    and nw: "unat (len p) + unat n < 2 ^ 64"
  shows "parser_append os tr p data n = None \<or>
         (\<exists>tr' p'. parser_append os tr p data n = Some (Inr (0, tr', p'))) \<or>
         (cap p < len p + n \<and>
          (\<exists>c. parser_append os tr p data n = Some (Inr (- 1, tr @ [Realloc c], p)) \<and>
               os_ret os (tr @ [Realloc c]) = 0))"
proof (cases "n = 0")
  case True
  then show ?thesis by (simp add: parser_append_def)
next
  case n0: False
  from ok have lb: "length (buf p) = unat (cap p)" and lc: "len p \<le> cap p"
    by (simp_all add: parser_ok_def)
  from nw have "unat (len p) + unat n < 2 ^ LENGTH(64)" by simp
  then have u: "unat (len p + n) = unat (len p) + unat n" by (simp add: unat_add_lem [THEN iffD1])
  show ?thesis
  proof (cases "cap p < len p + n")
    case False
    then have "len p + n \<le> cap p" by simp
    then have "unat (len p) + unat n \<le> length (buf p)"
      using u lb by (simp add: word_le_nat_alt)
    with src have "\<exists>p'. append_copy tr p data n = Inr (0, tr, p')"
      by (simp add: append_copy_def)
    with n0 False show ?thesis by (auto simp add: parser_append_def)
  next
    case True
    show ?thesis
    proof (cases "grow_cap (cap p * 2) (len p + n)")
      case None
      with n0 True show ?thesis by (simp add: parser_append_def)
    next
      case (Some c')
      from grow_cap_result [OF Some] have need: "len p + n \<le> c'" by blast
      show ?thesis
      proof (cases "os_ret os (tr @ [Realloc c']) = 0")
        case fail: True
        with n0 True Some
        have "parser_append os tr p data n = Some (Inr (- 1, tr @ [Realloc c'], p))"
          by (simp add: parser_append_def)
        with True fail show ?thesis by blast
      next
        case succ: False
        let ?q = "p\<lparr>buf := realloc_block (os_junk os) (buf p) (unat c'), cap := c'\<rparr>"
        from True need have "cap p \<le> c'" by simp
        with lb have "length (buf p) \<le> unat c'" by (simp add: word_le_nat_alt)
        then have lq: "length (buf ?q) = unat c'" by (simp add: length_realloc_block)
        from need u have "unat (len p) + unat n \<le> unat c'" by (simp add: word_le_nat_alt)
        with lq src have "\<exists>p'. append_copy (tr @ [Realloc c']) ?q data n
            = Inr (0, tr @ [Realloc c'], p')"
          by (simp add: append_copy_def)
        with n0 True Some succ show ?thesis by (auto simp add: parser_append_def)
      qed
    qed
  qed
qed

text \<open>While the doubled capacities stay below a size of at most \<open>2 ^ 63\<close>, no product wraps.\<close>

lemma doubling_exact:
  fixes c need :: size_t
  assumes "unat need \<le> 2 ^ 63" and "\<forall>i<j. c * 2 ^ i < need"
  shows "unat (c * 2 ^ j) = unat c * 2 ^ j"
  using assms(2)
proof (induction j)
  case 0
  show ?case by simp
next
  case (Suc j)
  then have ih: "unat (c * 2 ^ j) = unat c * 2 ^ j" by simp
  from Suc.prems have "c * 2 ^ j < need" by simp
  then have "unat (c * 2 ^ j) < unat need" by (simp add: word_less_nat_alt)
  with assms(1) have "unat (c * 2 ^ j) * unat (2 :: size_t) < 2 ^ LENGTH(64)" by simp
  then have "unat (c * 2 ^ j * 2) = unat (c * 2 ^ j) * unat (2 :: size_t)"
    by (simp only: unat_mult_lem [THEN iffD1])
  with ih show ?case by (simp add: ac_simps)
qed

text \<open>
  C9. A successful \<^verbatim>\<open>parser_init\<close> leaves \<open>len = 0 \<le> cap\<close> and a block of
  \<open>cap\<close> bytes. On a buffer where \<open>len \<le> cap\<close> holds, with \<open>n\<close> bytes to read from
  the caller and \<open>len + n\<close> inside \<^verbatim>\<open>size_t\<close>, \<^verbatim>\<open>parser_append\<close> never
  leaves the block: if it returns, it returns 0, or -1 from a failed
  \<^verbatim>\<open>realloc\<close> with the buffer as it was, and \<open>len \<le> cap\<close> holds again; on 0
  the length is \<open>len + n\<close> and the new bytes follow the pending ones. No call lowers
  \<open>cap\<close>. An append that needs more than \<open>cap\<close> and returns 0 leaves
  \<open>cap * 2 ^ j\<close> for the least \<open>j > 0\<close> that covers \<open>len + n\<close>, a product that does
  not wrap when \<open>len + n\<close> is at most \<open>2 ^ 63\<close>; an append that fits leaves \<open>cap\<close>
  as it was and returns 0. \<^verbatim>\<open>parser_consume\<close> keeps \<open>len \<le> cap\<close> and \<open>cap\<close>.
  The append returns whenever \<open>cap\<close> is not 0 and \<open>len + n\<close> is at most \<open>2 ^ 63\<close>,
  and then, with \<open>n\<close> bytes to read, inside the block and with \<open>len \<le> cap\<close>.
\<close>

theorem frame_buffer_invariant:
  "(parser_init os tr0 c = (0, tr1, p0) \<longrightarrow>
      parser_ok p0 \<and> len p0 \<le> cap p0 \<and> len p0 = 0 \<and> cap p0 = c) \<and>
   (parser_ok p \<and> unat n \<le> length data \<and> unat (len p) + unat n < 2 ^ 64 \<longrightarrow>
      parser_append os tr p data n = None \<or>
      (\<exists>rc tr' p'. parser_append os tr p data n = Some (Inr (rc, tr', p')) \<and>
         (rc = 0 \<or> rc = - 1 \<and> p' = p \<and> cap p < len p + n \<and>
                    (\<exists>c. tr' = tr @ [Realloc c] \<and> os_ret os tr' = 0)) \<and>
         parser_ok p' \<and> len p' \<le> cap p' \<and> cap p \<le> cap p' \<and>
         (rc = 0 \<longrightarrow> unat (len p') = unat (len p) + unat n \<and>
                      pending p' = pending p @ take (unat n) data) \<and>
         (cap p < len p + n \<and> rc = 0 \<longrightarrow>
            (\<exists>j>0. cap p' = cap p * 2 ^ j \<and> len p + n \<le> cap p' \<and>
                   (\<forall>i. 0 < i \<and> i < j \<longrightarrow> cap p * 2 ^ i < len p + n) \<and>
                   (unat (len p) + unat n \<le> 2 ^ 63 \<longrightarrow>
                      unat (cap p') = unat (cap p) * 2 ^ j))) \<and>
         (\<not> cap p < len p + n \<longrightarrow> cap p' = cap p \<and> rc = 0))) \<and>
   (parser_ok p \<longrightarrow>
      (\<exists>q. parser_consume p k = Inr q \<and> parser_ok q \<and> len q \<le> cap q \<and> cap q = cap p)) \<and>
   (parser_ok p \<and> 0 < cap p \<and> unat (len p) + unat n \<le> 2 ^ 63 \<longrightarrow>
      (\<exists>r. parser_append os tr p data n = Some r)) \<and>
   (parser_ok p \<and> 0 < cap p \<and> unat n \<le> length data \<and> unat (len p) + unat n \<le> 2 ^ 63 \<longrightarrow>
      (\<exists>rc tr' p'. parser_append os tr p data n = Some (Inr (rc, tr', p')) \<and>
                   parser_ok p' \<and> len p' \<le> cap p'))"
proof (intro conjI impI)
  assume "parser_init os tr0 c = (0, tr1, p0)"
  from parser_init_ok [OF this]
  show "parser_ok p0" "len p0 \<le> cap p0" "len p0 = 0" "cap p0 = c"
    by (simp_all add: parser_ok_def)
next
  assume a: "parser_ok p \<and> unat n \<le> length data \<and> unat (len p) + unat n < 2 ^ 64"
  then have ok: "parser_ok p" and src: "unat n \<le> length data"
    and nw: "unat (len p) + unat n < 2 ^ 64" by simp_all
  from nw have "unat (len p) + unat n < 2 ^ LENGTH(64)" by simp
  then have u: "unat (len p + n) = unat (len p) + unat n" by (simp add: unat_add_lem [THEN iffD1])
  let ?post = "\<lambda>rc tr' p'.
         (rc = 0 \<or> rc = - 1 \<and> p' = p \<and> cap p < len p + n \<and>
                    (\<exists>c. tr' = tr @ [Realloc c] \<and> os_ret os tr' = 0)) \<and>
         parser_ok p' \<and> len p' \<le> cap p' \<and> cap p \<le> cap p' \<and>
         (rc = 0 \<longrightarrow> unat (len p') = unat (len p) + unat n \<and>
                      pending p' = pending p @ take (unat n) data) \<and>
         (cap p < len p + n \<and> rc = 0 \<longrightarrow>
            (\<exists>j>0. cap p' = cap p * 2 ^ j \<and> len p + n \<le> cap p' \<and>
                   (\<forall>i. 0 < i \<and> i < j \<longrightarrow> cap p * 2 ^ i < len p + n) \<and>
                   (unat (len p) + unat n \<le> 2 ^ 63 \<longrightarrow>
                      unat (cap p') = unat (cap p) * 2 ^ j))) \<and>
         (\<not> cap p < len p + n \<longrightarrow> cap p' = cap p \<and> rc = 0)"
  have post: "?post rc tr' p'"
    if r: "parser_append os tr p data n = Some (Inr (rc, tr', p'))" for rc tr' p'
  proof -
    note res = parser_append_result [OF ok r]
    from parser_append_safe [OF ok src nw, of os tr] r
    have how: "rc = 0 \<or> rc = - 1 \<and> p' = p \<and> cap p < len p + n \<and>
                    (\<exists>c. tr' = tr @ [Realloc c] \<and> os_ret os tr' = 0)"
      by auto
    have exact: "cap p < len p + n \<and> rc = 0 \<longrightarrow>
        (\<exists>j>0. cap p' = cap p * 2 ^ j \<and> len p + n \<le> cap p' \<and>
                   (\<forall>i. 0 < i \<and> i < j \<longrightarrow> cap p * 2 ^ i < len p + n) \<and>
                   (unat (len p) + unat n \<le> 2 ^ 63 \<longrightarrow>
                      unat (cap p') = unat (cap p) * 2 ^ j))"
    proof
      assume g: "cap p < len p + n \<and> rc = 0"
      with res obtain j where j: "0 < j" "cap p' = cap p * 2 ^ j" "len p + n \<le> cap p'"
        "\<forall>i. 0 < i \<and> i < j \<longrightarrow> cap p * 2 ^ i < len p + n" by blast
      have "unat (len p) + unat n \<le> 2 ^ 63 \<longrightarrow> unat (cap p') = unat (cap p) * 2 ^ j"
      proof
        assume "unat (len p) + unat n \<le> 2 ^ 63"
        with u have "unat (len p + n) \<le> 2 ^ 63" by simp
        moreover have "\<forall>i<j. cap p * 2 ^ i < len p + n"
        proof (intro allI impI)
          fix i assume "i < j"
          with j(4) g show "cap p * 2 ^ i < len p + n" by (cases "i = 0") simp_all
        qed
        ultimately have "unat (cap p * 2 ^ j) = unat (cap p) * 2 ^ j" by (rule doubling_exact)
        with j(2) show "unat (cap p') = unat (cap p) * 2 ^ j" by simp
      qed
      with j show "\<exists>j>0. cap p' = cap p * 2 ^ j \<and> len p + n \<le> cap p' \<and>
                   (\<forall>i. 0 < i \<and> i < j \<longrightarrow> cap p * 2 ^ i < len p + n) \<and>
                   (unat (len p) + unat n \<le> 2 ^ 63 \<longrightarrow>
                      unat (cap p') = unat (cap p) * 2 ^ j)"
        by (intro exI [of _ j] conjI)
    qed
    from res have ok': "parser_ok p'" and mono: "cap p \<le> cap p'"
      and content: "rc = 0 \<longrightarrow> unat (len p') = unat (len p) + unat n \<and>
                      pending p' = pending p @ take (unat n) data"
      and same: "\<not> cap p < len p + n \<longrightarrow> cap p' = cap p"
      by simp_all
    from ok' have inv: "len p' \<le> cap p'" by (simp add: parser_ok_def)
    from how have "\<not> cap p < len p + n \<longrightarrow> rc = 0" by auto
    with same have same': "\<not> cap p < len p + n \<longrightarrow> cap p' = cap p \<and> rc = 0" by simp
    from how ok' inv mono content exact same' show ?thesis by (intro conjI)
  qed
  from parser_append_safe [OF ok src nw, of os tr]
  consider "parser_append os tr p data n = None"
    | rc tr' p' where "parser_append os tr p data n = Some (Inr (rc, tr', p'))"
    by (elim disjE conjE exE) auto
  then show "parser_append os tr p data n = None \<or>
      (\<exists>rc tr' p'. parser_append os tr p data n = Some (Inr (rc, tr', p')) \<and>
         ?post rc tr' p')"
  proof cases
    case 1
    then show ?thesis by (rule disjI1)
  next
    case (2 rc tr' p')
    from 2 post [OF 2] have "parser_append os tr p data n = Some (Inr (rc, tr', p')) \<and>
         ?post rc tr' p'" by (rule conjI)
    then show ?thesis by (intro disjI2 exI)
  qed
next
  assume ok: "parser_ok p"
  from parser_consume_ok [OF parser_ok_len [OF ok], of k] obtain q
    where q: "parser_consume p k = Inr q" "len q = (if len p \<le> k then 0 else len p - k)"
      "cap q = cap p" "length (buf q) = length (buf p)" by blast
  have "len q \<le> len p"
  proof (cases "len p \<le> k")
    case True with q show ?thesis by simp
  next
    case False
    then have "k \<le> len p" by simp
    then have "len p - k \<le> len p" by (simp add: word_sub_le)
    with False q show ?thesis by simp
  qed
  moreover from ok have "len p \<le> cap p" by (simp add: parser_ok_def)
  ultimately have "len q \<le> cap p" by (rule order_trans)
  with ok q have "parser_ok q" by (simp add: parser_ok_def)
  with q show "\<exists>q. parser_consume p k = Inr q \<and> parser_ok q \<and> len q \<le> cap q \<and> cap q = cap p"
    by (simp add: parser_ok_def)
next
  assume "parser_ok p \<and> 0 < cap p \<and> unat (len p) + unat n \<le> 2 ^ 63"
  then show "\<exists>r. parser_append os tr p data n = Some r"
    by (simp add: parser_append_returns)
next
  assume a: "parser_ok p \<and> 0 < cap p \<and> unat n \<le> length data \<and>
    unat (len p) + unat n \<le> 2 ^ 63"
  then have ok: "parser_ok p" and pos: "0 < cap p" and src: "unat n \<le> length data"
    and small: "unat (len p) + unat n \<le> 2 ^ 63" by simp_all
  from small have nw: "unat (len p) + unat n < 2 ^ 64" by simp
  from parser_append_returns [OF ok pos small, of os tr data]
  have "parser_append os tr p data n \<noteq> None" by auto
  with parser_append_safe [OF ok src nw, of os tr]
  obtain rc tr' p' where r: "parser_append os tr p data n = Some (Inr (rc, tr', p'))"
    by (elim disjE conjE exE) auto
  from parser_append_result [OF ok r] have ok': "parser_ok p'" by simp
  then have "len p' \<le> cap p'" by (simp add: parser_ok_def)
  with r ok' show "\<exists>rc tr' p'. parser_append os tr p data n = Some (Inr (rc, tr', p')) \<and>
                   parser_ok p' \<and> len p' \<le> cap p'"
    by blast
qed

theorem frame_buffer_invariant_witness:
  "parser_init all_succeed [] 4 = (0, [Malloc 4], \<lparr>buf = [0, 0, 0, 0], len = 0, cap = 4\<rparr>) \<and>
   parser_ok \<lparr>buf = [0, 0, 0, 0], len = 0, cap = 4\<rparr> \<and>
   parser_append all_succeed [Malloc 4] \<lparr>buf = [0, 0, 0, 0], len = 0, cap = 4\<rparr> [1, 2, 3] 3
     = Some (Inr (0, [Malloc 4], \<lparr>buf = [1, 2, 3, 0], len = 3, cap = 4\<rparr>)) \<and>
   parser_ok \<lparr>buf = [1, 2, 3, 0], len = 3, cap = 4\<rparr> \<and>
   parser_append all_succeed [Malloc 4] \<lparr>buf = [1, 2, 3, 0], len = 3, cap = 4\<rparr>
       [4, 5, 6, 7, 8, 9] 6
     = Some (Inr (0, [Malloc 4, Realloc 16],
         \<lparr>buf = [1, 2, 3, 4, 5, 6, 7, 8, 9, 0, 0, 0, 0, 0, 0, 0], len = 9, cap = 16\<rparr>)) \<and>
   parser_ok \<lparr>buf = [1, 2, 3, 4, 5, 6, 7, 8, 9, 0, 0, 0, 0, 0, 0, 0], len = 9, cap = 16\<rparr> \<and>
   (\<exists>j>0. (16 :: size_t) = 4 * 2 ^ j \<and> (\<forall>i. 0 < i \<and> i < j \<longrightarrow> (4 :: size_t) * 2 ^ i < 9) \<and>
          (16 :: nat) = 4 * 2 ^ j) \<and>
   (\<exists>q. parser_consume \<lparr>buf = [1, 2, 3, 0], len = 3, cap = 4\<rparr> 2 = Inr q \<and>
        parser_ok q \<and> cap q = 4) \<and>
   (\<exists>r. parser_append all_succeed [Malloc 4] \<lparr>buf = [1, 2, 3, 0], len = 3, cap = 4\<rparr>
          [4, 5, 6, 7, 8, 9] 6 = Some r)"
proof -
  let ?p0 = "\<lparr>buf = [0, 0, 0, 0], len = 0, cap = 4 :: size_t\<rparr>"
  let ?p1 = "\<lparr>buf = [1, 2, 3, 0], len = 3, cap = 4 :: size_t\<rparr>"
  let ?p2 = "\<lparr>buf = [1, 2, 3, 4, 5, 6, 7, 8, 9, 0, 0, 0, 0, 0, 0, 0], len = 9, cap = 16 :: size_t\<rparr>"
  have ok0: "parser_ok ?p0" by (simp add: parser_ok_def)
  note a = frame_buffer_invariant [where os = all_succeed and ?tr0.0 = "[]" and c = 4
      and ?tr1.0 = "[Malloc 4]" and ?p0.0 = ?p0 and p = ?p0 and tr = "[Malloc 4]"
      and data = "[1, 2, 3]" and n = 3 and k = 2]
  note b = frame_buffer_invariant [where os = all_succeed and ?tr0.0 = "[]" and c = 4
      and ?tr1.0 = "[Malloc 4]" and ?p0.0 = ?p0 and p = ?p1 and tr = "[Malloc 4]"
      and data = "[4, 5, 6, 7, 8, 9]" and n = 6 and k = 2]
  from a ok0 have ok1': "parser_ok ?p1" by (simp add: init_eval append_eval1)
  from b ok1' have "parser_ok ?p2"
    and "\<exists>j>0. (16 :: size_t) = 4 * 2 ^ j \<and> (\<forall>i. 0 < i \<and> i < j \<longrightarrow> (4 :: size_t) * 2 ^ i < 9) \<and>
          (16 :: nat) = 4 * 2 ^ j"
    and "\<exists>q. parser_consume ?p1 2 = Inr q \<and> parser_ok q \<and> cap q = 4"
    and "\<exists>r. parser_append all_succeed [Malloc 4] ?p1 [4, 5, 6, 7, 8, 9] 6 = Some r"
    by (auto simp add: append_eval2)
  then show ?thesis using init_eval append_eval1 append_eval2 ok0 ok1' by (intro conjI)
qed


section \<open>Exit-code mapping\<close>

text \<open>
  C4. Whatever the status (no status is both a normal exit and a death by signal): a
  child that terminated normally maps to its exit value, a child terminated by a signal
  maps to 128 plus the signal number, and every other status maps to 1.
\<close>

theorem child_exit_code_mapping:
  assumes "\<not> (WIFEXITED w s \<and> WIFSIGNALED w s)"
  shows "(WIFEXITED w s \<longrightarrow> child_exit_code w s = WEXITSTATUS w s) \<and>
         (WIFSIGNALED w s \<longrightarrow> child_exit_code w s = 128 + WTERMSIG w s) \<and>
         (\<not> WIFEXITED w s \<and> \<not> WIFSIGNALED w s \<longrightarrow> child_exit_code w s = 1)"
  using assms by (auto simp add: child_exit_code_def)

text \<open>
  With the macros of the GNU C library: exit value 0 maps to 0, exit value 3 to 3, death
  by signal 9 to 137, and a stopped child (neither shape) to 1.
\<close>

theorem child_exit_code_mapping_witness:
  "WIFEXITED glibc_wait 0 \<and> child_exit_code glibc_wait 0 = 0 \<and>
   WIFEXITED glibc_wait 0x300 \<and> child_exit_code glibc_wait 0x300 = 3 \<and>
   WIFSIGNALED glibc_wait 9 \<and> child_exit_code glibc_wait 9 = 137 \<and>
   \<not> WIFEXITED glibc_wait 0x137f \<and> \<not> WIFSIGNALED glibc_wait 0x137f \<and>
   child_exit_code glibc_wait 0x137f = 1"
  using child_exit_code_mapping [of glibc_wait 0]
        child_exit_code_mapping [of glibc_wait 768]
        child_exit_code_mapping [of glibc_wait 9]
        child_exit_code_mapping [of glibc_wait 4991]
  by (simp add: glibc_wait_def)

section \<open>Steps of the frame decoder\<close>

lemma unat_ucast_up:
  assumes "LENGTH('a::len) \<le> LENGTH('b::len)"
  shows "unat (ucast (w :: 'a word) :: 'b word) = unat w"
proof -
  have "unat w < 2 ^ LENGTH('a)" by (rule unsigned_less)
  also from assms have "(2::nat) ^ LENGTH('a) \<le> 2 ^ LENGTH('b)" by simp
  finally show ?thesis by (simp add: unsigned_ucast_eq take_bit_nat_eq_self)
qed

lemma be16_value: "unat (be16 a b) = 256 * unat a + unat b"
proof -
  have "push_bit 8 (ucast a :: u16) OR ucast b = push_bit 8 (ucast a) + ucast b"
    by (rule disjunctive_add_eq_or [symmetric])
      (auto simp add: bit_eq_iff bit_simps dest: bit_imp_le_length)
  then have "be16 a b = push_bit 8 (ucast a) + ucast b" by (simp add: be16_def)
  moreover have "unat (push_bit 8 (ucast a :: u16) + ucast b) = 256 * unat a + unat b"
    using unsigned_less [of a, where 'a = nat] unsigned_less [of b, where 'a = nat]
    by (simp add: unat_word_ariths push_bit_eq_mult unat_ucast_up)
  ultimately show ?thesis by simp
qed

lemma be32_value:
  "unat (be32 a b c d) = 16777216 * unat a + 65536 * unat b + 256 * unat c + unat d"
proof -
  have 1: "push_bit 8 (ucast c :: u32) OR ucast d = push_bit 8 (ucast c) + ucast d"
    by (rule disjunctive_add_eq_or [symmetric])
      (auto simp add: bit_eq_iff bit_simps dest: bit_imp_le_length)
  have 2: "push_bit 16 (ucast b :: u32) OR (push_bit 8 (ucast c) OR ucast d)
           = push_bit 16 (ucast b) + (push_bit 8 (ucast c) OR ucast d)"
    by (rule disjunctive_add_eq_or [symmetric])
      (auto simp add: bit_eq_iff bit_simps dest: bit_imp_le_length)
  have 3: "push_bit 24 (ucast a :: u32)
             OR (push_bit 16 (ucast b) OR (push_bit 8 (ucast c) OR ucast d))
           = push_bit 24 (ucast a)
             + (push_bit 16 (ucast b) OR (push_bit 8 (ucast c) OR ucast d))"
    by (rule disjunctive_add_eq_or [symmetric])
      (auto simp add: bit_eq_iff bit_simps dest: bit_imp_le_length)
  have "be32 a b c d
          = push_bit 24 (ucast a) + (push_bit 16 (ucast b) + (push_bit 8 (ucast c) + ucast d))"
    using 1 2 3 by (simp add: be32_def or.assoc)
  moreover have
    "unat (push_bit 24 (ucast a :: u32)
            + (push_bit 16 (ucast b) + (push_bit 8 (ucast c) + ucast d)))
     = 16777216 * unat a + 65536 * unat b + 256 * unat c + unat d"
    using unsigned_less [of a, where 'a = nat] unsigned_less [of b, where 'a = nat]
      unsigned_less [of c, where 'a = nat] unsigned_less [of d, where 'a = nat]
    by (simp add: unat_word_ariths push_bit_eq_mult unat_ucast_up)
  ultimately show ?thesis by simp
qed

lemma write_all_empty: "write_all os fd bs 0 tr = Some (0, tr)"
  by (simp add: write_all_def write_all_loop.simps)

lemma block_not_empty:
  assumes "0 < len p" "parser_ok p"
  shows "\<not> length (buf p) < 1"
proof -
  from assms(1) have "0 < unat (len p)" by (simp add: word_less_nat_alt)
  with parser_ok_len [OF assms(2)] show ?thesis by (cases "buf p") auto
qed

lemma block_has_header:
  assumes "5 \<le> len p" "parser_ok p"
  shows "\<not> length (buf p) < 5" "\<not> len p < 5" "0 < len p"
proof -
  from assms(1) have "5 \<le> unat (len p)" by (simp add: word_le_nat_alt)
  with parser_ok_len [OF assms(2)] show "\<not> length (buf p) < 5" by simp
  from assms(1) show "\<not> len p < 5" by simp
  from \<open>5 \<le> unat (len p)\<close> show "0 < len p" by (simp add: word_less_nat_alt)
qed

lemma consume_continue_ok:
  assumes "parser_ok p"
  shows "\<exists>p'. consume_continue tr p n = Inr (Continue, tr, p') \<and> parser_consume p n = Inr p' \<and>
           pending p' = drop (unat n) (pending p) \<and>
           len p' = (if len p \<le> n then 0 else len p - n) \<and> parser_ok p'"
proof -
  from parser_consume_ok [OF parser_ok_len [OF assms], of n] obtain p'
    where q: "parser_consume p n = Inr p'" "pending p' = drop (unat n) (pending p)"
      "len p' = (if len p \<le> n then 0 else len p - n)" "cap p' = cap p"
      "length (buf p') = length (buf p)" by blast
  from assms have lc: "len p \<le> cap p" by (simp add: parser_ok_def)
  have "len p' \<le> len p"
  proof (cases "len p \<le> n")
    case True with q show ?thesis by simp
  next
    case False
    then have "n \<le> len p" by simp
    then have "len p - n \<le> len p" by (simp add: word_sub_le)
    with False q show ?thesis by simp
  qed
  then have "len p' \<le> cap p" using lc by (rule order_trans)
  with assms q have "parser_ok p'" by (simp add: parser_ok_def)
  with q show ?thesis by (simp add: consume_continue_def)
qed

lemma len_minus_one:
  fixes l :: size_t
  assumes "0 < l"
  shows "(if l \<le> 1 then 0 else l - 1) = l - 1"
proof (cases "l \<le> 1")
  case True
  with assms have "unat l = unat (1 :: size_t)"
    by (simp add: word_le_nat_alt word_less_nat_alt)
  then have "l = 1" by (simp only: word_unat_eq_iff)
  with True show ?thesis by simp
next
  case False
  then show ?thesis by simp
qed

lemma parse_continue:
  "0 < len p \<Longrightarrow> frame_body os fd pid tr p = Some (Inr (Continue, tr', p')) \<Longrightarrow>
   parse_and_apply_frames os fd pid tr p = parse_and_apply_frames os fd pid tr' p'"
  by (subst parse_and_apply_frames.simps) simp

lemma parse_return:
  "0 < len p \<Longrightarrow> frame_body os fd pid tr p = Some (Inr (Return rc, tr', p')) \<Longrightarrow>
   parse_and_apply_frames os fd pid tr p = Some (Inr (rc, tr', p'))"
  by (subst parse_and_apply_frames.simps) simp

lemma parse_fault:
  "0 < len p \<Longrightarrow> frame_body os fd pid tr p = Some (Inl f) \<Longrightarrow>
   parse_and_apply_frames os fd pid tr p = Some (Inl f)"
  by (subst parse_and_apply_frames.simps) simp

lemma frame_body_data:
  assumes "0 < len p" "parser_ok p" "buf p ! 0 = OPCODE_DATA"
  shows "frame_body os fd pid tr p = data_frame os fd tr p"
  using assms(3) block_not_empty [OF assms(1,2)] by (simp add: frame_body_def)

lemma frame_body_resize:
  assumes "5 \<le> len p" "parser_ok p" "buf p ! 0 = OPCODE_RESIZE"
  shows "frame_body os fd pid tr p =
     Some (if os_ret os (tr @ [Ioctl_TIOCSWINSZ fd (window_of p)]) \<noteq> 0
           then Inr (Return (- 1), tr @ [Ioctl_TIOCSWINSZ fd (window_of p)], p)
           else consume_continue (snd (signal_child os pid SIGWINCH
                  (tr @ [Ioctl_TIOCSWINSZ fd (window_of p)]))) p 5)"
proof -
  note h = block_has_header [OF assms(1,2)]
  from h(3) assms(2) have "\<not> length (buf p) < 1" by (rule block_not_empty)
  with assms(3) h(1,2) show ?thesis
    by (simp add: frame_body_def resize_frame_def Let_def OPCODE_DATA_def OPCODE_RESIZE_def
        window_of_def)
qed

lemma frame_body_close:
  assumes "0 < len p" "parser_ok p" "buf p ! 0 = OPCODE_CLOSE"
  shows "frame_body os fd pid tr p =
     Some (consume_continue (snd (signal_child os pid SIGHUP tr)) p 1)"
  using assms(3) block_not_empty [OF assms(1,2)]
  by (simp add: frame_body_def close_frame_def OPCODE_DATA_def OPCODE_RESIZE_def
      OPCODE_CLOSE_def)

lemma frame_body_other:
  assumes "0 < len p" "parser_ok p"
    and "buf p ! 0 \<noteq> OPCODE_DATA" "buf p ! 0 \<noteq> OPCODE_RESIZE" "buf p ! 0 \<noteq> OPCODE_CLOSE"
  shows "frame_body os fd pid tr p = Some (consume_continue tr p 1)"
  using assms(3-5) block_not_empty [OF assms(1,2)] by (simp add: frame_body_def)

text \<open>
  C7. When the first pending byte is none of the opcodes 1, 2 and 3, one pass of the
  decoder consumes exactly that byte, makes no call into the environment, and the decoder
  goes on with the rest of the buffer.
\<close>

theorem noise_byte_skipped:
  assumes "0 < len p" "parser_ok p"
    and "buf p ! 0 \<noteq> OPCODE_DATA" "buf p ! 0 \<noteq> OPCODE_RESIZE" "buf p ! 0 \<noteq> OPCODE_CLOSE"
  shows "\<exists>p'. frame_body os fd pid tr p = Some (Inr (Continue, tr, p')) \<and>
              parser_consume p 1 = Inr p' \<and>
              pending p' = drop 1 (pending p) \<and> len p' = len p - 1 \<and>
              parse_and_apply_frames os fd pid tr p = parse_and_apply_frames os fd pid tr p'"
proof -
  from consume_continue_ok [OF assms(2), of tr 1] obtain p'
    where c: "consume_continue tr p 1 = Inr (Continue, tr, p')" "parser_consume p 1 = Inr p'"
      "pending p' = drop 1 (pending p)" "len p' = (if len p \<le> 1 then 0 else len p - 1)"
    by auto
  from c(1) frame_body_other [OF assms]
  have f: "frame_body os fd pid tr p = Some (Inr (Continue, tr, p'))"
    by simp
  from c(4) assms(1) have "len p' = len p - 1" by (simp add: len_minus_one)
  with f c parse_continue [OF assms(1) f] show ?thesis by simp
qed

text \<open>
  The bytes \<^verbatim>\<open>FF FF 03\<close>: two passes that drop one byte each and call nothing, then
  the hangup of the Close frame.
\<close>

theorem noise_byte_skipped_witness:
  "frame_body all_succeed 5 100 [] \<lparr>buf = [0xFF, 0xFF, 0x03, 0], len = 3, cap = 4\<rparr>
     = Some (Inr (Continue, [], \<lparr>buf = [0xFF, 0x03, 0x03, 0], len = 2, cap = 4\<rparr>)) \<and>
   frame_body all_succeed 5 100 [] \<lparr>buf = [0xFF, 0x03, 0x03, 0], len = 2, cap = 4\<rparr>
     = Some (Inr (Continue, [], \<lparr>buf = [0x03, 0x03, 0x03, 0], len = 1, cap = 4\<rparr>)) \<and>
   parse_and_apply_frames all_succeed 5 100 [] \<lparr>buf = [0xFF, 0xFF, 0x03, 0], len = 3, cap = 4\<rparr>
     = Some (Inr (0, [Getpgid 100, Killpg 100 SIGHUP],
         \<lparr>buf = [0x03, 0x03, 0x03, 0], len = 0, cap = 4\<rparr>))"
proof -
  let ?p0 = "\<lparr>buf = [0xFF, 0xFF, 0x03, 0], len = 3, cap = 4 :: size_t\<rparr>"
  let ?p1 = "\<lparr>buf = [0xFF, 0x03, 0x03, 0], len = 2, cap = 4 :: size_t\<rparr>"
  let ?p2 = "\<lparr>buf = [0x03, 0x03, 0x03, 0], len = 1, cap = 4 :: size_t\<rparr>"
  have c0: "parser_consume ?p0 1 = Inr ?p1" and c1: "parser_consume ?p1 1 = Inr ?p2"
    by (simp_all add: parser_consume_def memmove_def memcpy_def word_le_nat_alt)
  from noise_byte_skipped [of ?p0 all_succeed 5 100 "[]"]
  have s0: "frame_body all_succeed 5 100 [] ?p0 = Some (Inr (Continue, [], ?p1))"
    and e0: "parse_and_apply_frames all_succeed 5 100 [] ?p0
               = parse_and_apply_frames all_succeed 5 100 [] ?p1"
    by (auto simp add: c0 parser_ok_def OPCODE_DATA_def OPCODE_RESIZE_def OPCODE_CLOSE_def)
  from noise_byte_skipped [of ?p1 all_succeed 5 100 "[]"]
  have s1: "frame_body all_succeed 5 100 [] ?p1 = Some (Inr (Continue, [], ?p2))"
    and e1: "parse_and_apply_frames all_succeed 5 100 [] ?p1
               = parse_and_apply_frames all_succeed 5 100 [] ?p2"
    by (auto simp add: c1 parser_ok_def OPCODE_DATA_def OPCODE_RESIZE_def OPCODE_CLOSE_def)
  have "parse_and_apply_frames all_succeed 5 100 [] ?p2
          = Some (Inr (0, [Getpgid 100, Killpg 100 SIGHUP],
              \<lparr>buf = [0x03, 0x03, 0x03, 0], len = 0, cap = 4\<rparr>))"
    by (simp add: parse_and_apply_frames.simps decoder_defs all_succeed_def word_le_nat_alt)
  with s0 s1 e0 e1 show ?thesis by simp
qed

text \<open>
  C5. \<^verbatim>\<open>signal_child\<close> asks for the process group of the child first, every time it
  is called. When that fails it returns \<open>-1\<close> and sends nothing; when the group is the
  child's own pid it signals the group, otherwise the child alone, and returns \<open>-1\<close>
  when the delivery fails. The hangup of a Close frame and the window-change notification
  of a Resize frame are both sent through it.
\<close>

theorem signal_child_resolves_group:
  "(os_ret os (tr @ [Getpgid pid]) < 0 \<longrightarrow>
      signal_child os pid sig tr = (- 1, tr @ [Getpgid pid])) \<and>
   (0 \<le> os_ret os (tr @ [Getpgid pid]) \<and> os_ret os (tr @ [Getpgid pid]) = pid \<longrightarrow>
      signal_child os pid sig tr =
        (if os_ret os (tr @ [Getpgid pid, Killpg pid sig]) < 0 then - 1 else 0,
         tr @ [Getpgid pid, Killpg pid sig])) \<and>
   (0 \<le> os_ret os (tr @ [Getpgid pid]) \<and> os_ret os (tr @ [Getpgid pid]) \<noteq> pid \<longrightarrow>
      signal_child os pid sig tr =
        (if os_ret os (tr @ [Getpgid pid, Kill pid sig]) < 0 then - 1 else 0,
         tr @ [Getpgid pid, Kill pid sig])) \<and>
   (0 < len p \<and> parser_ok p \<and> buf p ! 0 = OPCODE_CLOSE \<longrightarrow>
      (\<exists>p'. frame_body os fd pid tr p =
              Some (Inr (Continue, snd (signal_child os pid SIGHUP tr), p')))) \<and>
   (5 \<le> len p \<and> parser_ok p \<and> buf p ! 0 = OPCODE_RESIZE \<and>
    os_ret os (tr @ [Ioctl_TIOCSWINSZ fd (window_of p)]) = 0 \<longrightarrow>
      (\<exists>p'. frame_body os fd pid tr p =
              Some (Inr (Continue,
                snd (signal_child os pid SIGWINCH (tr @ [Ioctl_TIOCSWINSZ fd (window_of p)])),
                p'))))"
proof (intro conjI impI)
  show "signal_child os pid sig tr = (- 1, tr @ [Getpgid pid])"
    if "os_ret os (tr @ [Getpgid pid]) < 0"
    using that by (simp add: signal_child_def)
  show "signal_child os pid sig tr =
        (if os_ret os (tr @ [Getpgid pid, Killpg pid sig]) < 0 then - 1 else 0,
         tr @ [Getpgid pid, Killpg pid sig])"
    if "0 \<le> os_ret os (tr @ [Getpgid pid]) \<and> os_ret os (tr @ [Getpgid pid]) = pid"
    using that by (simp add: signal_child_def Let_def)
  show "signal_child os pid sig tr =
        (if os_ret os (tr @ [Getpgid pid, Kill pid sig]) < 0 then - 1 else 0,
         tr @ [Getpgid pid, Kill pid sig])"
    if "0 \<le> os_ret os (tr @ [Getpgid pid]) \<and> os_ret os (tr @ [Getpgid pid]) \<noteq> pid"
    using that by (simp add: signal_child_def Let_def)
next
  assume a: "0 < len p \<and> parser_ok p \<and> buf p ! 0 = OPCODE_CLOSE"
  then have ok: "parser_ok p" and pos: "0 < len p" by simp_all
  from consume_continue_ok [OF ok, of "snd (signal_child os pid SIGHUP tr)" 1] obtain p'
    where "consume_continue (snd (signal_child os pid SIGHUP tr)) p 1
             = Inr (Continue, snd (signal_child os pid SIGHUP tr), p')" by blast
  with a frame_body_close [OF pos ok, of os fd pid tr]
  show "\<exists>p'. frame_body os fd pid tr p =
              Some (Inr (Continue, snd (signal_child os pid SIGHUP tr), p'))"
    by simp
next
  assume a: "5 \<le> len p \<and> parser_ok p \<and> buf p ! 0 = OPCODE_RESIZE \<and>
    os_ret os (tr @ [Ioctl_TIOCSWINSZ fd (window_of p)]) = 0"
  then have ok: "parser_ok p" and five: "5 \<le> len p" by simp_all
  let ?t = "snd (signal_child os pid SIGWINCH (tr @ [Ioctl_TIOCSWINSZ fd (window_of p)]))"
  from consume_continue_ok [OF ok, of ?t 5] obtain p'
    where "consume_continue ?t p 5 = Inr (Continue, ?t, p')" by blast
  with a frame_body_resize [OF five ok, of os fd pid tr]
  show "\<exists>p'. frame_body os fd pid tr p = Some (Inr (Continue, ?t, p'))"
    by simp
qed


section \<open>Decoder errors in the session loop\<close>

text \<open>A decoder that returns a value other than 0 ends the session with exit code 1.\<close>

lemma decoder_error_ends_session:
  assumes "feeds os fd pid tr0 st tr p"
    and "parse_and_apply_frames os fd pid tr p = Some (Inr (rc, tr', p'))" and "rc \<noteq> 0"
  shows "main_loop os w fd pid tr0 st = Some (Inr (1, teardown tr' p' fd))"
proof -
  let ?t1 = "tr0 @ [Waitpid pid WNOHANG]"
  let ?t2 = "?t1 @ [Select [STDIN_FILENO, fd] 100000]"
  let ?t3 = "?t2 @ [Read STDIN_FILENO 65536]"
  from assms(1) have f: "os_ret os ?t1 \<noteq> pid" "0 \<le> os_ret os ?t2" "stdin_open st"
    "STDIN_FILENO \<in> set (os_ready os ?t2)" "0 < os_ret os ?t3"
    "parser_append os ?t3 (parser_p st) (read_into (io_buf st) (os_data os ?t3) (os_ret os ?t3))
           (word_of_int (os_ret os ?t3)) = Some (Inr (0, tr, p))"
    by (simp_all add: feeds_def Let_def)
  from f(5,6) assms(2,3)
  have "\<exists>st'. stdin_ready os fd pid ?t2 st = Some (Inr (Return 1, teardown tr' p' fd, st'))"
    by (simp add: stdin_ready_def Let_def)
  then obtain st' where
    s: "stdin_ready os fd pid ?t2 st = Some (Inr (Return 1, teardown tr' p' fd, st'))" ..
  from f(1-4) s have "session_body os w fd pid tr0 st = Some (Inr (Return 1, teardown tr' p' fd, st'))"
    by (simp add: session_body_def Let_def)
  then show ?thesis by (subst main_loop.simps) simp
qed

section \<open>Effects of decoded frames\<close>

text \<open>
  The three outcomes of \<^verbatim>\<open>signal_child\<close> (no group, own group, another group), a
  Close frame and a Resize frame.
\<close>

theorem signal_child_resolves_group_witness:
  "signal_child (scripted (\<lambda>c. - 1) 0 [] 0 []) 100 SIGHUP [] = (- 1, [Getpgid 100]) \<and>
   signal_child all_succeed 100 SIGHUP [] = (0, [Getpgid 100, Killpg 100 SIGHUP]) \<and>
   signal_child (scripted (\<lambda>c. case c of Getpgid g \<Rightarrow> 7 | _ \<Rightarrow> 0) 0 [] 0 []) 100 SIGWINCH []
     = (0, [Getpgid 100, Kill 100 SIGWINCH]) \<and>
   (\<exists>p'. frame_body all_succeed 5 100 [] \<lparr>buf = [0x03, 0, 0, 0], len = 1, cap = 4\<rparr>
          = Some (Inr (Continue, [Getpgid 100, Killpg 100 SIGHUP], p'))) \<and>
   (\<exists>p'. frame_body all_succeed 5 100 []
            \<lparr>buf = [0x02, 0x00, 0x50, 0x00, 0x18, 0, 0, 0], len = 5, cap = 8\<rparr>
          = Some (Inr (Continue,
              [Ioctl_TIOCSWINSZ 5 \<lparr>ws_row = 24, ws_col = 80, ws_xpixel = 0, ws_ypixel = 0\<rparr>,
               Getpgid 100, Killpg 100 SIGWINCH], p')))"
proof -
  let ?pc = "\<lparr>buf = [0x03, 0, 0, 0], len = 1, cap = 4 :: size_t\<rparr>"
  let ?pr = "\<lparr>buf = [0x02, 0x00, 0x50, 0x00, 0x18, 0, 0, 0], len = 5, cap = 8 :: size_t\<rparr>"
  have w: "window_of ?pr = \<lparr>ws_row = 24, ws_col = 80, ws_xpixel = 0, ws_ypixel = 0\<rparr>"
    by (simp add: window_of_def be16_def)
  note a = signal_child_resolves_group [of "scripted (\<lambda>c. - 1) 0 [] 0 []" "[]" 100 SIGHUP]
  note b = signal_child_resolves_group [of all_succeed "[]" 100 SIGHUP ?pc 5]
  note c = signal_child_resolves_group
    [of "scripted (\<lambda>c. case c of Getpgid g \<Rightarrow> 7 | _ \<Rightarrow> 0) 0 [] 0 []" "[]" 100 SIGWINCH]
  note d = signal_child_resolves_group [of all_succeed "[]" 100 SIGWINCH ?pr 5]
  note e = signal_child_resolves_group
    [of all_succeed "[Ioctl_TIOCSWINSZ 5 (window_of ?pr)]" 100 SIGWINCH]
  from a have 1: "signal_child (scripted (\<lambda>c. - 1) 0 [] 0 []) 100 SIGHUP [] = (- 1, [Getpgid 100])"
    by (simp add: scripted_def)
  from b have 2: "signal_child all_succeed 100 SIGHUP [] = (0, [Getpgid 100, Killpg 100 SIGHUP])"
    by (simp add: all_succeed_def)
  from c have 3: "signal_child (scripted (\<lambda>c. case c of Getpgid g \<Rightarrow> 7 | _ \<Rightarrow> 0) 0 [] 0 [])
      100 SIGWINCH [] = (0, [Getpgid 100, Kill 100 SIGWINCH])"
    by (simp add: scripted_def)
  from b 2 have 4: "\<exists>p'. frame_body all_succeed 5 100 [] ?pc
          = Some (Inr (Continue, [Getpgid 100, Killpg 100 SIGHUP], p'))"
    by (simp add: parser_ok_def OPCODE_CLOSE_def)
  from e have "snd (signal_child all_succeed 100 SIGWINCH [Ioctl_TIOCSWINSZ 5 (window_of ?pr)])
      = [Ioctl_TIOCSWINSZ 5 (window_of ?pr), Getpgid 100, Killpg 100 SIGWINCH]"
    by (simp add: all_succeed_def)
  with d have 5: "\<exists>p'. frame_body all_succeed 5 100 [] ?pr
          = Some (Inr (Continue,
              [Ioctl_TIOCSWINSZ 5 \<lparr>ws_row = 24, ws_col = 80, ws_xpixel = 0, ws_ypixel = 0\<rparr>,
               Getpgid 100, Killpg 100 SIGWINCH], p'))"
    by (simp add: parser_ok_def OPCODE_RESIZE_def w all_succeed_def word_le_nat_alt)
  from 1 2 3 4 5 show ?thesis by (intro conjI)
qed

text \<open>
  C6. A Resize frame of at least five buffered bytes makes one window-size call whose
  columns and rows are the big-endian values of bytes 1, 2 and 3, 4. When that call
  fails the decoder returns \<open>-1\<close> without consuming, and a session loop that fed the
  decoder this buffer ends with exit code 1. When it succeeds the frame's five bytes are
  consumed and the decoder goes on, whatever \<^verbatim>\<open>signal_child\<close> returned.
\<close>

theorem resize_frame_applied:
  assumes "5 \<le> len p" "parser_ok p" "buf p ! 0 = OPCODE_RESIZE"
  shows "\<exists>ws p'.
      unat (ws_col ws) = 256 * unat (buf p ! 1) + unat (buf p ! 2) \<and>
      unat (ws_row ws) = 256 * unat (buf p ! 3) + unat (buf p ! 4) \<and>
      ws_xpixel ws = 0 \<and> ws_ypixel ws = 0 \<and>
      (os_ret os (tr @ [Ioctl_TIOCSWINSZ fd ws]) \<noteq> 0 \<longrightarrow>
         parse_and_apply_frames os fd pid tr p
           = Some (Inr (- 1, tr @ [Ioctl_TIOCSWINSZ fd ws], p)) \<and>
         (\<forall>w st tr0. feeds os fd pid tr0 st tr p \<longrightarrow>
            main_loop os w fd pid tr0 st
              = Some (Inr (1, teardown (tr @ [Ioctl_TIOCSWINSZ fd ws]) p fd)))) \<and>
      (os_ret os (tr @ [Ioctl_TIOCSWINSZ fd ws]) = 0 \<longrightarrow>
         frame_body os fd pid tr p
           = Some (Inr (Continue,
               snd (signal_child os pid SIGWINCH (tr @ [Ioctl_TIOCSWINSZ fd ws])), p')) \<and>
         parser_consume p 5 = Inr p' \<and> pending p' = drop 5 (pending p) \<and>
         len p' = len p - 5)"
proof -
  let ?ws = "window_of p"
  let ?t1 = "tr @ [Ioctl_TIOCSWINSZ fd ?ws]"
  let ?t2 = "snd (signal_child os pid SIGWINCH ?t1)"
  note h = block_has_header [OF assms(1,2)]
  note fb = frame_body_resize [OF assms, of os fd pid tr]
  from consume_continue_ok [OF assms(2), of ?t2 5] obtain p'
    where c: "consume_continue ?t2 p 5 = Inr (Continue, ?t2, p')" "parser_consume p 5 = Inr p'"
      "pending p' = drop 5 (pending p)" "len p' = (if len p \<le> 5 then 0 else len p - 5)"
    by auto
  from c(4) assms(1) have l: "len p' = len p - 5" by auto
  have fail: "parse_and_apply_frames os fd pid tr p = Some (Inr (- 1, ?t1, p)) \<and>
         (\<forall>w st tr0. feeds os fd pid tr0 st tr p \<longrightarrow>
            main_loop os w fd pid tr0 st = Some (Inr (1, teardown ?t1 p fd)))"
    if ne: "os_ret os ?t1 \<noteq> 0"
  proof -
    from fb ne have "frame_body os fd pid tr p = Some (Inr (Return (- 1), ?t1, p))" by simp
    from parse_return [OF h(3) this]
    have r: "parse_and_apply_frames os fd pid tr p = Some (Inr (- 1, ?t1, p))" .
    then show ?thesis by (auto intro: decoder_error_ends_session)
  qed
  have succ: "frame_body os fd pid tr p = Some (Inr (Continue, ?t2, p'))"
    if "os_ret os ?t1 = 0"
    using fb that c(1) by simp
  show ?thesis
  proof (intro exI [of _ ?ws] exI [of _ p'] conjI impI)
    show "unat (ws_col ?ws) = 256 * unat (buf p ! 1) + unat (buf p ! 2)"
      "unat (ws_row ?ws) = 256 * unat (buf p ! 3) + unat (buf p ! 4)"
      "ws_xpixel ?ws = 0" "ws_ypixel ?ws = 0"
      by (simp_all add: window_of_def be16_value)
  qed (use fail succ c l in simp_all)
qed

lemma winsize_eqI:
  "ws_row a = r \<Longrightarrow> ws_col a = c \<Longrightarrow> ws_xpixel a = x \<Longrightarrow> ws_ypixel a = y \<Longrightarrow>
   a = \<lparr>ws_row = r, ws_col = c, ws_xpixel = x, ws_ypixel = y\<rparr>"
  by (cases a) simp

lemma resize_denied_feeds:
  "feeds resize_denied 5 100 [] session0
     [Waitpid 100 1, Select [0, 5] 100000, Read 0 65536]
     \<lparr>buf = [0x02, 0x00, 0x50, 0x00, 0x18, 0, 0, 0], len = 5, cap = 8\<rparr>"
  by (simp add: feeds_def resize_denied_def scripted_def session0_def WNOHANG_def
      STDIN_FILENO_def read_into_def parser_append_def append_copy_def memcpy_def)

text \<open>
  The frame \<^verbatim>\<open>02 00 50 00 18\<close> is 80 columns and 24 rows; the same frame in an
  environment that refuses the window size ends the session with exit code 1.
\<close>

theorem resize_frame_applied_witness:
  "(\<exists>p'. frame_body all_succeed 5 100 []
            \<lparr>buf = [0x02, 0x00, 0x50, 0x00, 0x18, 0, 0, 0], len = 5, cap = 8\<rparr>
          = Some (Inr (Continue,
              [Ioctl_TIOCSWINSZ 5 \<lparr>ws_row = 24, ws_col = 80, ws_xpixel = 0, ws_ypixel = 0\<rparr>,
               Getpgid 100, Killpg 100 SIGWINCH], p')) \<and>
         parser_consume \<lparr>buf = [0x02, 0x00, 0x50, 0x00, 0x18, 0, 0, 0], len = 5, cap = 8\<rparr> 5
           = Inr p' \<and> pending p' = [] \<and> len p' = 0) \<and>
   feeds resize_denied 5 100 [] session0
     [Waitpid 100 1, Select [0, 5] 100000, Read 0 65536]
     \<lparr>buf = [0x02, 0x00, 0x50, 0x00, 0x18, 0, 0, 0], len = 5, cap = 8\<rparr> \<and>
   main_loop resize_denied glibc_wait 5 100 [] session0
     = Some (Inr (1, [Waitpid 100 1, Select [0, 5] 100000, Read 0 65536,
          Ioctl_TIOCSWINSZ 5 \<lparr>ws_row = 24, ws_col = 80, ws_xpixel = 0, ws_ypixel = 0\<rparr>,
          Free, Close 5]))"
proof -
  let ?p = "\<lparr>buf = [0x02, 0x00, 0x50, 0x00, 0x18, 0, 0, 0], len = 5, cap = 8 :: size_t\<rparr>"
  let ?w = "\<lparr>ws_row = 24, ws_col = 80, ws_xpixel = 0, ws_ypixel = 0\<rparr>"
  let ?t = "[Waitpid 100 1, Select [0, 5] 100000, Read 0 65536]"
  have pre: "5 \<le> len ?p" "parser_ok ?p" "buf ?p ! 0 = OPCODE_RESIZE"
    by (simp_all add: parser_ok_def OPCODE_RESIZE_def)
  have eq: "ws = ?w"
    if "unat (ws_col ws) = 256 * unat (buf ?p ! 1) + unat (buf ?p ! 2)"
      "unat (ws_row ws) = 256 * unat (buf ?p ! 3) + unat (buf ?p ! 4)"
      "ws_xpixel ws = 0" "ws_ypixel ws = 0" for ws
  proof (rule winsize_eqI)
    from that(2) have "unat (ws_row ws) = unat (24 :: u16)" by simp
    then show "ws_row ws = 24" by (simp only: word_unat_eq_iff)
    from that(1) have "unat (ws_col ws) = unat (80 :: u16)" by simp
    then show "ws_col ws = 80" by (simp only: word_unat_eq_iff)
  qed (use that in simp_all)
  from resize_frame_applied [OF pre, of all_succeed "[]" 5 100] obtain ws p'
    where a: "unat (ws_col ws) = 256 * unat (buf ?p ! 1) + unat (buf ?p ! 2)"
      "unat (ws_row ws) = 256 * unat (buf ?p ! 3) + unat (buf ?p ! 4)"
      "ws_xpixel ws = 0" "ws_ypixel ws = 0"
      and a2: "os_ret all_succeed ([] @ [Ioctl_TIOCSWINSZ 5 ws]) = 0 \<longrightarrow>
         frame_body all_succeed 5 100 [] ?p
           = Some (Inr (Continue,
               snd (signal_child all_succeed 100 SIGWINCH ([] @ [Ioctl_TIOCSWINSZ 5 ws])), p')) \<and>
         parser_consume ?p 5 = Inr p' \<and> pending p' = drop 5 (pending ?p) \<and>
         len p' = len ?p - 5"
    by blast
  from eq [OF a] a2 have first: "\<exists>p'. frame_body all_succeed 5 100 [] ?p
          = Some (Inr (Continue, [Ioctl_TIOCSWINSZ 5 ?w, Getpgid 100, Killpg 100 SIGWINCH], p')) \<and>
         parser_consume ?p 5 = Inr p' \<and> pending p' = [] \<and> len p' = 0"
    by (simp add: all_succeed_def signal_child_def pending_def)
  from resize_frame_applied [OF pre, of resize_denied ?t 5 100] obtain ws p'
    where b: "unat (ws_col ws) = 256 * unat (buf ?p ! 1) + unat (buf ?p ! 2)"
      "unat (ws_row ws) = 256 * unat (buf ?p ! 3) + unat (buf ?p ! 4)"
      "ws_xpixel ws = 0" "ws_ypixel ws = 0"
      and b2: "os_ret resize_denied (?t @ [Ioctl_TIOCSWINSZ 5 ws]) \<noteq> 0 \<longrightarrow>
         (\<forall>w st tr0. feeds resize_denied 5 100 tr0 st ?t ?p \<longrightarrow>
            main_loop resize_denied w 5 100 tr0 st
              = Some (Inr (1, teardown (?t @ [Ioctl_TIOCSWINSZ 5 ws]) ?p 5)))"
    by blast
  have "os_ret resize_denied (?t @ [Ioctl_TIOCSWINSZ 5 ws]) \<noteq> 0"
    by (simp add: resize_denied_def scripted_def)
  with b2 resize_denied_feeds
  have "main_loop resize_denied glibc_wait 5 100 [] session0
          = Some (Inr (1, teardown (?t @ [Ioctl_TIOCSWINSZ 5 ws]) ?p 5))" by blast
  with eq [OF b] have second: "main_loop resize_denied glibc_wait 5 100 [] session0
     = Some (Inr (1, ?t @ [Ioctl_TIOCSWINSZ 5 ?w, Free, Close 5]))"
    by (simp add: teardown_def parser_deinit_def)
  from first resize_denied_feeds second show ?thesis by simp
qed


section \<open>Data frames\<close>

text \<open>
  C1 fails on the code for length fields of \<^verbatim>\<open>0xFFFFFFFB\<close> and above: the sum
  \<^verbatim>\<open>5 + n\<close> wraps in \<^verbatim>\<open>uint32_t\<close>. With the five bytes \<^verbatim>\<open>01 FF FF FF FF\<close>
  buffered, the length field is 4294967295, the code compares \<open>len\<close> with 4 and, instead
  of waiting, goes on to write 4294967295 bytes from offset 5 of a block of 8192 bytes.
\<close>

theorem data_length_wraps:
  "parser_ok wrapping \<and> pending wrapping = [0x01, 0xFF, 0xFF, 0xFF, 0xFF] \<and>
   unat (be32 0xFF 0xFF 0xFF 0xFF) = 4294967295 \<and>
   unat (ucast (5 + be32 0xFF 0xFF 0xFF 0xFF) :: size_t) = 4 \<and>
   frame_body all_succeed 5 100 [] wrapping = Some (Inl OutOfBounds) \<and>
   frame_body all_succeed 5 100 [] wrapping \<noteq> Some (Inr (Return 0, [], wrapping)) \<and>
   parse_and_apply_frames all_succeed 5 100 [] wrapping = Some (Inl OutOfBounds)"
proof -
  have n: "be32 0xFF 0xFF 0xFF 0xFF = (0xFFFFFFFF :: u32)" by (simp add: be32_def)
  have ok: "parser_ok wrapping" by (simp add: parser_ok_def wrapping_def)
  have pos: "0 < len wrapping" by (simp add: wrapping_def)
  have pend: "pending wrapping = [0x01, 0xFF, 0xFF, 0xFF, 0xFF]"
    by (simp add: pending_def wrapping_def)
  have f: "frame_body all_succeed 5 100 [] wrapping = Some (Inl OutOfBounds)"
    by (simp add: frame_body_def data_frame_def OPCODE_DATA_def wrapping_def n)
  from parse_fault [OF pos f] f ok pend show ?thesis by (simp add: n)
qed

lemma data_frame_unfold:
  "data_frame os fd tr p =
     (if len p < 5 then Some (Inr (Return 0, tr, p))
      else if length (buf p) < 5 then Some (Inl OutOfBounds)
      else if len p < ucast (5 + data_length p) then Some (Inr (Return 0, tr, p))
      else if 0 < data_length p then
        (if length (buf p) < 5 + unat (data_length p) then Some (Inl OutOfBounds)
         else
           (case write_all os fd (take (unat (data_length p)) (drop 5 (buf p)))
                   (ucast (data_length p)) tr of
              None \<Rightarrow> None
            | Some (rc, tr') \<Rightarrow>
                if rc \<noteq> 0 then Some (Inr (Return (- 1), tr', p))
                else Some (consume_continue tr' p (ucast (5 + data_length p)))))
      else Some (consume_continue tr p (ucast (5 + data_length p))))"
  by (simp only: data_frame_def data_length_def Let_def)

text \<open>
  What the decoder does with a Data frame whose length field \<open>n\<close> satisfies
  \<open>5 + n < 2 ^ 32\<close>.
\<close>

lemma data_frame_in_range:
  assumes "0 < len p" "parser_ok p" "buf p ! 0 = OPCODE_DATA"
  shows "(len p < 5 \<longrightarrow> frame_body os fd pid tr p = Some (Inr (Return 0, tr, p))) \<and>
    (5 \<le> len p \<and> 5 + unat (data_length p) < 2 ^ 32 \<and>
     unat (len p) < 5 + unat (data_length p) \<longrightarrow>
       frame_body os fd pid tr p = Some (Inr (Return 0, tr, p))) \<and>
    (5 \<le> len p \<and> 5 + unat (data_length p) < 2 ^ 32 \<and>
     5 + unat (data_length p) \<le> unat (len p) \<longrightarrow>
       (\<exists>p'. parser_consume p (word_of_nat (5 + unat (data_length p))) = Inr p' \<and>
             pending p' = drop (5 + unat (data_length p)) (pending p) \<and>
             frame_body os fd pid tr p =
               (case write_all os fd (take (unat (data_length p)) (drop 5 (pending p)))
                       (ucast (data_length p)) tr of
                  None \<Rightarrow> None
                | Some (rc, tr') \<Rightarrow>
                    if rc \<noteq> 0 then Some (Inr (Return (- 1), tr', p))
                    else Some (Inr (Continue, tr', p')))))"
proof (intro conjI impI)
  let ?n = "data_length p"
  have fb: "frame_body os fd pid tr p = data_frame os fd tr p"
    by (rule frame_body_data [OF assms])
  show "frame_body os fd pid tr p = Some (Inr (Return 0, tr, p))" if "len p < 5"
    using that fb by (simp add: data_frame_unfold)
  have sum: "unat (ucast (5 + ?n) :: size_t) = 5 + unat ?n" if "5 + unat ?n < 2 ^ 32"
  proof -
    from that have "unat (5 :: u32) + unat ?n < 2 ^ LENGTH(32)" by simp
    then have "unat (5 + ?n) = unat (5 :: u32) + unat ?n" by (simp only: unat_add_lem [THEN iffD1])
    then show ?thesis by (simp add: unat_ucast_up)
  qed
  show "frame_body os fd pid tr p = Some (Inr (Return 0, tr, p))"
    if a: "5 \<le> len p \<and> 5 + unat ?n < 2 ^ 32 \<and> unat (len p) < 5 + unat ?n"
  proof -
    from a have five: "5 \<le> len p" by simp
    note h = block_has_header [OF five assms(2)]
    from a sum have "len p < ucast (5 + ?n)" by (simp add: word_less_nat_alt)
    with fb h show ?thesis by (simp add: data_frame_unfold)
  qed
  show "\<exists>p'. parser_consume p (word_of_nat (5 + unat ?n)) = Inr p' \<and>
             pending p' = drop (5 + unat ?n) (pending p) \<and>
             frame_body os fd pid tr p =
               (case write_all os fd (take (unat ?n) (drop 5 (pending p))) (ucast ?n) tr of
                  None \<Rightarrow> None
                | Some (rc, tr') \<Rightarrow>
                    if rc \<noteq> 0 then Some (Inr (Return (- 1), tr', p))
                    else Some (Inr (Continue, tr', p')))"
    if a: "5 \<le> len p \<and> 5 + unat ?n < 2 ^ 32 \<and> 5 + unat ?n \<le> unat (len p)"
  proof -
    from a have five: "5 \<le> len p" by simp
    note h = block_has_header [OF five assms(2)]
    note l = parser_ok_len [OF assms(2)]
    from a sum have u: "unat (ucast (5 + ?n) :: size_t) = 5 + unat ?n" by simp
    with a have nl: "\<not> len p < ucast (5 + ?n)" by (simp add: word_less_nat_alt)
    from u have w: "(word_of_nat (5 + unat ?n) :: size_t) = ucast (5 + ?n)"
      by (simp only: u [symmetric] of_nat_unat ucast_id)
    from a l have inb: "\<not> length (buf p) < 5 + unat ?n" by simp
    from a have "unat ?n \<le> unat (len p) - 5" by linarith
    then have pay: "take (unat ?n) (drop 5 (pending p)) = take (unat ?n) (drop 5 (buf p))"
      by (simp add: pending_def drop_take min_def)
    from consume_continue_ok [OF assms(2), of _ "ucast (5 + ?n)"] u
    obtain p' where c: "\<And>t. consume_continue t p (ucast (5 + ?n)) = Inr (Continue, t, p')"
      "parser_consume p (ucast (5 + ?n)) = Inr p'"
      "pending p' = drop (5 + unat ?n) (pending p)"
      by (auto simp add: consume_continue_def)
    have fbv: "frame_body os fd pid tr p =
               (case write_all os fd (take (unat ?n) (drop 5 (buf p))) (ucast ?n) tr of
                  None \<Rightarrow> None
                | Some (rc, tr') \<Rightarrow>
                    if rc \<noteq> 0 then Some (Inr (Return (- 1), tr', p))
                    else Some (Inr (Continue, tr', p')))"
    proof (cases "?n = 0")
      case True
      with fb h nl c(1) show ?thesis
        by (simp add: data_frame_unfold write_all_empty)
    next
      case False
      then have "0 < ?n" by (simp add: word_neq_0_conv)
      with fb h nl inb c(1) show ?thesis
        by (simp add: data_frame_unfold split: option.splits)
    qed
    show ?thesis
      unfolding w pay by (intro exI [of _ p'] conjI c(2) c(3) fbv)
  qed
qed

section \<open>Termination of the decoder\<close>

lemma length_big_block: "length big_block = 4294967291"
  by (simp add: big_block_def)

lemma write_all_once:
  assumes "os_ret os (tr @ [Write fd bs]) = int (length bs)" "length bs < 2 ^ 64" "bs \<noteq> []"
  shows "write_all os fd bs (word_of_nat (length bs)) tr = Some (0, tr @ [Write fd bs])"
proof -
  let ?c = "word_of_nat (length bs) :: size_t"
  have u: "unat ?c = length bs" using assms(2) by (simp add: unat_of_nat)
  then have pos: "0 < ?c" using assms(3) by (simp add: word_less_nat_alt)
  have "write_all_loop os fd bs ?c 0 tr = write_all_loop os fd bs ?c ?c (tr @ [Write fd bs])"
    using pos u assms(1) by (subst write_all_loop.simps) simp
  also have "\<dots> = Some (0, tr @ [Write fd bs])"
    by (subst write_all_loop.simps) simp
  finally show ?thesis by (simp add: write_all_def)
qed

lemma consume_continue_decreases:
  assumes "parser_ok p" "0 < len p" "0 < k" "consume_continue t p k = Inr (fl, t', p')"
  shows "len p' < len p \<and> parser_ok p' \<and> pending p' = drop (unat k) (pending p)"
proof -
  from consume_continue_ok [OF assms(1), of t k] assms(4)
  have l: "len p' = (if len p \<le> k then 0 else len p - k)" and ok: "parser_ok p'"
    and pd: "pending p' = drop (unat k) (pending p)"
    by auto
  have "len p' < len p"
  proof (cases "len p \<le> k")
    case True
    with l assms(2) show ?thesis by simp
  next
    case False
    then have "k < len p" by simp
    then have "unat (len p - k) = unat (len p) - unat k" by (rule unat_sub_lt)
    moreover from assms(3) have "0 < unat k" by (simp add: word_less_nat_alt)
    moreover from \<open>k < len p\<close> have "unat k < unat (len p)" by (simp add: word_less_nat_alt)
    ultimately have "unat (len p - k) < unat (len p)" by simp
    with False l show ?thesis by (simp add: word_less_nat_alt)
  qed
  with ok pd show ?thesis by simp
qed

text \<open>
  A pass of the decoder that goes round again has consumed at least one byte, unless it
  handled a Data frame whose length field makes \<^verbatim>\<open>5 + n\<close> wrap.
\<close>

lemma decoder_pass_progress:
  assumes pos: "0 < len p" and ok: "parser_ok p"
    and nowrap: "buf p ! 0 = OPCODE_DATA \<longrightarrow> 5 + unat (data_length p) < 2 ^ 32"
    and step: "frame_body os fd pid tr p = Some (Inr (Continue, tr', p'))"
  shows "len p' < len p \<and> parser_ok p' \<and> (\<exists>k. pending p' = drop k (pending p))"
proof -
  note ne = block_not_empty [OF pos ok]
  consider (data) "buf p ! 0 = OPCODE_DATA"
    | (resize) "buf p ! 0 \<noteq> OPCODE_DATA" "buf p ! 0 = OPCODE_RESIZE"
    | (close) "buf p ! 0 \<noteq> OPCODE_DATA" "buf p ! 0 \<noteq> OPCODE_RESIZE" "buf p ! 0 = OPCODE_CLOSE"
    | (other) "buf p ! 0 \<noteq> OPCODE_DATA" "buf p ! 0 \<noteq> OPCODE_RESIZE" "buf p ! 0 \<noteq> OPCODE_CLOSE"
    by blast
  then show ?thesis
  proof cases
    case data
    let ?k = "ucast (5 + data_length p) :: size_t"
    from data nowrap have "unat (5 :: u32) + unat (data_length p) < 2 ^ LENGTH(32)" by simp
    then have "unat (5 + data_length p) = unat (5 :: u32) + unat (data_length p)"
      by (simp only: unat_add_lem [THEN iffD1])
    then have "unat ?k = 5 + unat (data_length p)" by (simp add: unat_ucast_up)
    then have k: "0 < ?k" by (simp add: word_less_nat_alt)
    from step frame_body_data [OF pos ok data, of os fd pid tr]
    obtain t where "consume_continue t p ?k = Inr (Continue, tr', p')"
      by (auto simp add: data_frame_unfold split: if_splits option.splits)
    from consume_continue_decreases [OF ok pos k this] show ?thesis by blast
  next
    case resize
    from step resize ne
    obtain t where "consume_continue t p 5 = Inr (Continue, tr', p')"
      by (auto simp add: frame_body_def resize_frame_def Let_def split: if_splits)
    from consume_continue_decreases [OF ok pos _ this] show ?thesis by auto
  next
    case close
    from step frame_body_close [OF pos ok close(3), of os fd pid tr]
    have "consume_continue (snd (signal_child os pid SIGHUP tr)) p 1 = Inr (Continue, tr', p')"
      by simp
    from consume_continue_decreases [OF ok pos _ this] show ?thesis by auto
  next
    case other
    from step frame_body_other [OF pos ok other, of os fd pid tr]
    have "consume_continue tr p 1 = Inr (Continue, tr', p')" by simp
    from consume_continue_decreases [OF ok pos _ this] show ?thesis by auto
  qed
qed

lemma no_wrap_drop:
  assumes "no_wrap bs"
  shows "no_wrap (drop k bs)"
  unfolding no_wrap_def
proof (intro allI impI)
  fix i
  assume i: "i < length (drop k bs) - 4" and d: "drop k bs ! i = OPCODE_DATA"
  from i have lt: "k + i < length bs - 4" and le: "k + i + 4 < length bs" by simp_all
  from le have nth: "drop k bs ! j = bs ! (k + j)" if "j \<le> i + 4" for j
    using that by simp
  from d nth [of i] have "bs ! (k + i) = OPCODE_DATA" by simp
  with assms lt have "5 + unat (be32 (bs ! (k + i + 1)) (bs ! (k + i + 2)) (bs ! (k + i + 3))
      (bs ! (k + i + 4))) < 2 ^ 32"
    by (simp add: no_wrap_def)
  with nth [of "i + 1"] nth [of "i + 2"] nth [of "i + 3"] nth [of "i + 4"]
  show "5 + unat (be32 (drop k bs ! (i + 1)) (drop k bs ! (i + 2)) (drop k bs ! (i + 3))
      (drop k bs ! (i + 4))) < 2 ^ 32"
    by (simp add: add.assoc)
qed

lemma no_wrap_head:
  assumes "no_wrap bs" "4 < length bs" "bs ! 0 = OPCODE_DATA"
  shows "5 + unat (be32 (bs ! 1) (bs ! 2) (bs ! 3) (bs ! 4)) < 2 ^ 32"
proof -
  from assms(2) have "0 < length bs - 4" by simp
  with assms(1) have "bs ! 0 = OPCODE_DATA \<longrightarrow>
      5 + unat (be32 (bs ! (0 + 1)) (bs ! (0 + 2)) (bs ! (0 + 3)) (bs ! (0 + 4))) < 2 ^ 32"
    unfolding no_wrap_def by blast
  with assms(3) show ?thesis by (simp only: add_0)
qed

lemma no_wrap_front:
  assumes ok: "parser_ok p" and five: "5 \<le> len p" and nw: "no_wrap (pending p)"
    and d: "buf p ! 0 = OPCODE_DATA"
  shows "5 + unat (data_length p) < 2 ^ 32"
proof -
  from five have u: "5 \<le> unat (len p)" by (simp add: word_le_nat_alt)
  with parser_ok_len [OF ok] have l: "length (pending p) = unat (len p)"
    by (simp add: pending_def)
  from u have nth: "pending p ! j = buf p ! j" if "j \<le> 4" for j
    using that by (simp add: pending_def)
  from u l have "4 < length (pending p)" by simp
  moreover from d nth [of 0] have "pending p ! 0 = OPCODE_DATA" by simp
  ultimately have "5 + unat (be32 (pending p ! 1) (pending p ! 2) (pending p ! 3)
      (pending p ! 4)) < 2 ^ 32"
    by (rule no_wrap_head [OF nw])
  moreover have "pending p ! 1 = buf p ! 1" "pending p ! 2 = buf p ! 2"
    "pending p ! 3 = buf p ! 3" "pending p ! 4 = buf p ! 4"
    by (simp_all only: nth)
  ultimately show ?thesis by (simp only: data_length_def)
qed

lemma frame_body_returns:
  assumes "\<forall>fd bs t. length bs < 2 ^ 32 \<longrightarrow>
             (\<exists>r. write_all os fd bs (word_of_nat (length bs)) t = Some r)"
  shows "\<exists>x. frame_body os fd pid tr p = Some x"
proof -
  let ?n = "data_length p"
  let ?bs = "take (unat ?n) (drop 5 (buf p))"
  have "\<exists>x. data_frame os fd tr p = Some x"
  proof (cases "length (buf p) < 5 + unat ?n")
    case True
    then show ?thesis by (simp add: data_frame_unfold)
  next
    case False
    then have l: "length ?bs = unat ?n" by simp
    have "unat ?n < 2 ^ 32" using unsigned_less [of ?n, where 'a = nat] by simp
    with l assms obtain r where "write_all os fd ?bs (word_of_nat (length ?bs)) tr = Some r"
      by metis
    moreover have "(word_of_nat (length ?bs) :: size_t) = ucast ?n"
      by (simp only: l of_nat_unat)
    ultimately have "write_all os fd ?bs (ucast ?n) tr = Some r" by simp
    then show ?thesis by (cases r) (simp add: data_frame_unfold)
  qed
  then show ?thesis by (auto simp add: frame_body_def Let_def)
qed

lemma all_succeed_writes:
  "\<exists>r. write_all all_succeed fd bs (word_of_nat (length bs)) t = Some r" if "length bs < 2 ^ 32"
proof (cases "bs = []")
  case True
  then show ?thesis by (simp add: write_all_empty)
next
  case False
  from that have "length bs < 2 ^ 64" by simp
  with False have "write_all all_succeed fd bs (word_of_nat (length bs)) t
      = Some (0, t @ [Write fd bs])"
    by (intro write_all_once) (simp_all add: all_succeed_def)
  then show ?thesis by blast
qed

text \<open>
  The decoder returns on every buffer in which no Data header has a length field that
  makes \<^verbatim>\<open>5 + n\<close> wrap, in an environment where \<^verbatim>\<open>write_all\<close> returns.
\<close>

lemma decoder_returns_without_wrap:
  assumes w: "\<forall>fd bs t. length bs < 2 ^ 32 \<longrightarrow>
                (\<exists>r. write_all os fd bs (word_of_nat (length bs)) t = Some r)"
  shows "parser_ok p \<Longrightarrow> no_wrap (pending p) \<Longrightarrow>
         \<exists>r. parse_and_apply_frames os fd pid tr p = Some r"
proof (induction "unat (len p)" arbitrary: p tr rule: less_induct)
  case less
  show ?case
  proof (cases "0 < len p")
    case False
    then show ?thesis by (subst parse_and_apply_frames.simps) simp
  next
    case pos: True
    from frame_body_returns [OF w] obtain x where fb: "frame_body os fd pid tr p = Some x" ..
    show ?thesis
    proof (cases x)
      case (Inl f)
      with fb parse_fault [OF pos] show ?thesis by blast
    next
      case (Inr y)
      then obtain fl tr' p' where x: "x = Inr (fl, tr', p')" by (cases y) auto
      show ?thesis
      proof (cases fl)
        case (Return rc)
        with fb x parse_return [OF pos] show ?thesis by blast
      next
        case Continue
        with fb x have step: "frame_body os fd pid tr p = Some (Inr (Continue, tr', p'))"
          by simp
        have nowrap: "buf p ! 0 = OPCODE_DATA \<longrightarrow> 5 + unat (data_length p) < 2 ^ 32"
        proof
          assume d: "buf p ! 0 = OPCODE_DATA"
          have "5 \<le> len p"
          proof (rule ccontr)
            assume "\<not> 5 \<le> len p"
            then have "len p < 5" by simp
            with step frame_body_data [OF pos less.prems(1) d, of os fd pid tr]
            show False by (simp add: data_frame_unfold)
          qed
          from no_wrap_front [OF less.prems(1) this less.prems(2) d]
          show "5 + unat (data_length p) < 2 ^ 32" .
        qed
        from decoder_pass_progress [OF pos less.prems(1) nowrap step]
        obtain k where lt: "len p' < len p" and ok': "parser_ok p'"
          and pd: "pending p' = drop k (pending p)" by blast
        from lt have "unat (len p') < unat (len p)" by (simp add: word_less_nat_alt)
        moreover from pd less.prems(2) have "no_wrap (pending p')" by (simp add: no_wrap_drop)
        ultimately obtain r where "parse_and_apply_frames os fd pid tr' p' = Some r"
          using less.hyps [OF _ ok'] by blast
        with parse_continue [OF pos step] show ?thesis by simp
      qed
    qed
  qed
qed

lemma decoder_returns_all_succeed:
  assumes "parser_ok p" "no_wrap (pending p)"
  shows "\<exists>r. parse_and_apply_frames all_succeed fd pid tr p = Some r"
  by (rule decoder_returns_without_wrap [OF _ assms]) (blast intro: all_succeed_writes)


text \<open>The buffer \<open>stuck\<close>: every pass leaves it as it was.\<close>

lemma frame_body_stuck:
  "frame_body all_succeed fd pid tr stuck =
     Some (Inr (Continue, tr @ [Write fd big_block], stuck))"
proof -
  have n: "be32 0xFF 0xFF 0xFF 0xFB = (0xFFFFFFFB :: u32)" by (simp add: be32_def)
  have w: "write_all all_succeed fd big_block (word_of_nat (length big_block)) tr
             = Some (0, tr @ [Write fd big_block])"
    by (rule write_all_once) (simp_all add: all_succeed_def length_big_block, simp add: big_block_def)
  show ?thesis
    using w by (simp add: frame_body_def data_frame_def OPCODE_DATA_def n stuck_def
        length_big_block consume_continue_def parser_consume_def memmove_def memcpy_def)
qed

lemma stuck_never_returns:
  assumes "parse_and_apply_frames os fd pid tr p = Some y"
  shows "\<not> (os = all_succeed \<and> p = stuck)"
proof (rule parse_and_apply_frames.raw_induct
    [where P = "\<lambda>os fd pid tr p y. \<not> (os = all_succeed \<and> p = stuck)", OF _ assms], goal_cases)
  case (1 parse os fd pid tr p y)
  show ?case
  proof
    assume a: "os = all_succeed \<and> p = stuck"
    have "0 < len stuck" by (simp add: stuck_def)
    with 1(2) a have "parse all_succeed fd pid (tr @ [Write fd big_block]) stuck = Some y"
      by (simp add: frame_body_stuck)
    then have "\<not> (all_succeed = all_succeed \<and> stuck = stuck)" by (rule 1(1))
    then show False by simp
  qed
qed

text \<open>
  C10 fails on the code. With the five bytes \<^verbatim>\<open>01 FF FF FF FB\<close> buffered in a block
  of \<open>2 ^ 32\<close> bytes, \<^verbatim>\<open>5 + n\<close> wraps to 0: one pass writes the 4294967291 bytes
  after the header, consumes nothing and leaves the buffer as it was, and the decoder
  never returns.
\<close>

theorem decoder_loops_forever:
  "parser_ok stuck \<and> pending stuck = [0x01, 0xFF, 0xFF, 0xFF, 0xFB] \<and>
   frame_body all_succeed 5 100 [] stuck = Some (Inr (Continue, [Write 5 big_block], stuck)) \<and>
   parse_and_apply_frames all_succeed 5 100 [] stuck = None"
proof -
  have "parser_ok stuck" by (simp add: parser_ok_def stuck_def length_big_block)
  moreover have "pending stuck = [0x01, 0xFF, 0xFF, 0xFF, 0xFB]"
    by (simp add: pending_def stuck_def)
  moreover from frame_body_stuck [of 5 100 "[]"]
  have "frame_body all_succeed 5 100 [] stuck = Some (Inr (Continue, [Write 5 big_block], stuck))"
    by simp
  moreover have "parse_and_apply_frames all_succeed 5 100 [] stuck = None"
    using stuck_never_returns [of all_succeed 5 100 "[]" stuck]
    by (cases "parse_and_apply_frames all_succeed 5 100 [] stuck") auto
  ultimately show ?thesis by (intro conjI)
qed

section \<open>Exits of the session loop\<close>

text \<open>
  C2, as amended. When the poll at the top of a pass finds the child terminated, the
  session releases the buffer, closes the pseudoterminal and ends with the child's mapped
  exit code: after the \<^verbatim>\<open>waitpid\<close> it makes no \<^verbatim>\<open>select\<close>, \<^verbatim>\<open>read\<close> or
  \<^verbatim>\<open>write\<close>, so it neither waits for end-of-stream nor relays output that is still
  pending.
\<close>

theorem child_exit_observed_ends_session:
  assumes "os_ret os (tr @ [Waitpid pid WNOHANG]) = pid"
  shows "main_loop os w fd pid tr st =
           Some (Inr (child_exit_code w (os_status os (tr @ [Waitpid pid WNOHANG])),
                      tr @ [Waitpid pid WNOHANG, Free, Close fd]))"
proof -
  from assms have "session_body os w fd pid tr st =
      Some (Inr (Return (child_exit_code w (os_status os (tr @ [Waitpid pid WNOHANG]))),
                 tr @ [Waitpid pid WNOHANG, Free, Close fd], st))"
    by (simp add: session_body_def Let_def teardown_def parser_deinit_def)
  then show ?thesis by (subst main_loop.simps) simp
qed

text \<open>A child killed by signal 9: exit code 137.\<close>

theorem child_exit_observed_ends_session_witness:
  "os_ret (scripted (\<lambda>c. 100) 0 [] 9 []) ([] @ [Waitpid 100 WNOHANG]) = 100 \<and>
   main_loop (scripted (\<lambda>c. 100) 0 [] 9 []) glibc_wait 5 100 [] session0 =
     Some (Inr (137, [Waitpid 100 WNOHANG, Free, Close 5]))"
  using child_exit_observed_ends_session
    [of "scripted (\<lambda>c. 100) 0 [] 9 []" "[]" 100 glibc_wait 5 session0]
  by (simp add: scripted_def child_exit_code_def glibc_wait_def)

text \<open>
  C2 as stated fails: the child has exited, a read of the pseudoterminal would return
  the two bytes \<^verbatim>\<open>hi\<close>, and the session ends without reading or writing them.
\<close>

theorem pending_output_not_relayed:
  "os_ret exited_with_output [Waitpid 100 WNOHANG] = 100 \<and>
   os_ret exited_with_output [Waitpid 100 WNOHANG, Read 5 65536] = 2 \<and>
   os_data exited_with_output [Waitpid 100 WNOHANG, Read 5 65536] = [0x68, 0x69] \<and>
   main_loop exited_with_output glibc_wait 5 100 [] session0 =
     Some (Inr (0, [Waitpid 100 WNOHANG, Free, Close 5])) \<and>
   Read 5 65536 \<notin> set [Waitpid 100 WNOHANG, Free, Close 5] \<and>
   Write STDOUT_FILENO [0x68, 0x69] \<notin> set [Waitpid 100 WNOHANG, Free, Close 5]"
proof -
  have "session_body exited_with_output glibc_wait 5 100 [] session0 =
      Some (Inr (Return 0, [Waitpid 100 WNOHANG, Free, Close 5], session0))"
    by (simp add: session_body_def Let_def teardown_def parser_deinit_def
        exited_with_output_def scripted_def child_exit_code_def glibc_wait_def)
  then have "main_loop exited_with_output glibc_wait 5 100 [] session0 =
     Some (Inr (0, [Waitpid 100 WNOHANG, Free, Close 5]))"
    by (subst main_loop.simps) simp
  then show ?thesis by (simp add: exited_with_output_def scripted_def)
qed

text \<open>
  C8. In a pass where the child is running and controller input is readable: a read that
  returns 0, or fails with an error other than \<^verbatim>\<open>EINTR\<close>, clears \<^verbatim>\<open>stdin_open\<close>
  and the pass goes on to the pseudoterminal block (or, when the pseudoterminal is not
  readable, to the next pass) with the session still running; a read interrupted by
  \<^verbatim>\<open>EINTR\<close> does the same with \<^verbatim>\<open>stdin_open\<close> unchanged.
\<close>

theorem controller_input_close_keeps_session:
  assumes "os_ret os (tr @ [Waitpid pid WNOHANG]) \<noteq> pid"
    and "0 \<le> os_ret os (tr @ [Waitpid pid WNOHANG, Select [STDIN_FILENO, fd] 100000])"
    and "stdin_open st"
    and "STDIN_FILENO \<in> set (os_ready os
           (tr @ [Waitpid pid WNOHANG, Select [STDIN_FILENO, fd] 100000]))"
    and "t2 = tr @ [Waitpid pid WNOHANG, Select [STDIN_FILENO, fd] 100000]"
    and "t3 = t2 @ [Read STDIN_FILENO 65536]"
  shows "(os_ret os t3 = 0 \<or> (os_ret os t3 < 0 \<and> os_errno os t3 \<noteq> EINTR) \<longrightarrow>
           session_body os w fd pid tr st =
             (if fd \<in> set (os_ready os t2)
              then master_ready os w fd pid t3 (st\<lparr>stdin_open := False\<rparr>)
              else Some (Inr (Continue, t3, st\<lparr>stdin_open := False\<rparr>))) \<and>
           (fd \<notin> set (os_ready os t2) \<longrightarrow>
              main_loop os w fd pid tr st =
                main_loop os w fd pid t3 (st\<lparr>stdin_open := False\<rparr>))) \<and>
         (os_ret os t3 < 0 \<and> os_errno os t3 = EINTR \<longrightarrow>
           session_body os w fd pid tr st =
             (if fd \<in> set (os_ready os t2)
              then master_ready os w fd pid t3 st
              else Some (Inr (Continue, t3, st))) \<and>
           (fd \<notin> set (os_ready os t2) \<longrightarrow>
              main_loop os w fd pid tr st = main_loop os w fd pid t3 st))"
proof (intro conjI impI)
  assume a: "os_ret os t3 = 0 \<or> (os_ret os t3 < 0 \<and> os_errno os t3 \<noteq> EINTR)"
  with assms(5,6)
  have s: "stdin_ready os fd pid t2 st = Some (Inr (Continue, t3, st\<lparr>stdin_open := False\<rparr>))"
    by (auto simp add: stdin_ready_def Let_def)
  with assms(1-5)
  show b: "session_body os w fd pid tr st =
             (if fd \<in> set (os_ready os t2)
              then master_ready os w fd pid t3 (st\<lparr>stdin_open := False\<rparr>)
              else Some (Inr (Continue, t3, st\<lparr>stdin_open := False\<rparr>)))"
    by (simp add: session_body_def Let_def)
  assume "fd \<notin> set (os_ready os t2)"
  with b show "main_loop os w fd pid tr st =
                main_loop os w fd pid t3 (st\<lparr>stdin_open := False\<rparr>)"
    by (subst main_loop.simps) simp
next
  assume a: "os_ret os t3 < 0 \<and> os_errno os t3 = EINTR"
  with assms(5,6)
  have s: "stdin_ready os fd pid t2 st = Some (Inr (Continue, t3, st))"
    by (auto simp add: stdin_ready_def Let_def)
  with assms(1-5)
  show b: "session_body os w fd pid tr st =
             (if fd \<in> set (os_ready os t2)
              then master_ready os w fd pid t3 st
              else Some (Inr (Continue, t3, st)))"
    by (simp add: session_body_def Let_def)
  assume "fd \<notin> set (os_ready os t2)"
  with b show "main_loop os w fd pid tr st = main_loop os w fd pid t3 st"
    by (subst main_loop.simps) simp
qed

lemma eof_with_output_relays:
  "\<exists>st'. master_ready eof_with_output glibc_wait 5 100
           [Waitpid 100 1, Select [0, 5] 100000, Read 0 65536] (session0\<lparr>stdin_open := False\<rparr>)
         = Some (Inr (Continue,
             [Waitpid 100 1, Select [0, 5] 100000, Read 0 65536, Read 5 65536,
              Write 1 [0x68, 0x69]], st')) \<and> \<not> stdin_open st'"
proof -
  let ?t = "[Waitpid 100 1, Select [0, 5] 100000, Read 0 65536, Read 5 65536]"
  have w: "write_all eof_with_output STDOUT_FILENO [0x68, 0x69]
             (word_of_nat (length [0x68, 0x69 :: u8])) ?t
           = Some (0, ?t @ [Write STDOUT_FILENO [0x68, 0x69]])"
    by (rule write_all_once) (simp_all add: eof_with_output_def scripted_def)
  then show ?thesis
    by (simp add: master_ready_def Let_def eof_with_output_def scripted_def STDIN_FILENO_def
        STDOUT_FILENO_def session0_def read_into_def)
qed

text \<open>
  End of controller input while the pseudoterminal holds \<^verbatim>\<open>hi\<close>: the flag is cleared
  and the two bytes are relayed in the same pass. A failed read with \<^verbatim>\<open>errno\<close> 5
  clears the flag; one with \<^verbatim>\<open>EINTR\<close> leaves it set.
\<close>

theorem controller_input_close_keeps_session_witness:
  "(\<exists>st'. session_body eof_with_output glibc_wait 5 100 [] session0
           = Some (Inr (Continue,
               [Waitpid 100 1, Select [0, 5] 100000, Read 0 65536, Read 5 65536,
                Write 1 [0x68, 0x69]], st')) \<and> \<not> stdin_open st') \<and>
   session_body (stdin_answers (- 1) 5) glibc_wait 5 100 [] session0
     = Some (Inr (Continue, [Waitpid 100 1, Select [0, 5] 100000, Read 0 65536],
         session0\<lparr>stdin_open := False\<rparr>)) \<and>
   main_loop (stdin_answers (- 1) 5) glibc_wait 5 100 [] session0
     = main_loop (stdin_answers (- 1) 5) glibc_wait 5 100
         [Waitpid 100 1, Select [0, 5] 100000, Read 0 65536] (session0\<lparr>stdin_open := False\<rparr>) \<and>
   session_body (stdin_answers (- 1) EINTR) glibc_wait 5 100 [] session0
     = Some (Inr (Continue, [Waitpid 100 1, Select [0, 5] 100000, Read 0 65536], session0)) \<and>
   stdin_open session0"
proof -
  let ?t2 = "[Waitpid 100 1, Select [0, 5] 100000]"
  let ?t3 = "[Waitpid 100 1, Select [0, 5] 100000, Read 0 65536]"
  have so: "stdin_open session0" by (simp add: session0_def)
  have t2: "?t2 = [] @ [Waitpid 100 WNOHANG, Select [STDIN_FILENO, 5] 100000]"
    and t3: "?t3 = ?t2 @ [Read STDIN_FILENO 65536]"
    by (simp_all add: WNOHANG_def STDIN_FILENO_def)
  from controller_input_close_keeps_session
    [of eof_with_output "[]" 100 5 session0 ?t2 ?t3 glibc_wait, OF _ _ so _ t2 t3]
  have "session_body eof_with_output glibc_wait 5 100 [] session0
          = master_ready eof_with_output glibc_wait 5 100 ?t3 (session0\<lparr>stdin_open := False\<rparr>)"
    by (simp add: eof_with_output_def scripted_def WNOHANG_def STDIN_FILENO_def)
  with eof_with_output_relays have 1: "\<exists>st'. session_body eof_with_output glibc_wait 5 100 [] session0
           = Some (Inr (Continue,
               [Waitpid 100 1, Select [0, 5] 100000, Read 0 65536, Read 5 65536,
                Write 1 [0x68, 0x69]], st')) \<and> \<not> stdin_open st'"
    by simp
  from controller_input_close_keeps_session
    [of "stdin_answers (- 1) 5" "[]" 100 5 session0 ?t2 ?t3 glibc_wait, OF _ _ so _ t2 t3]
  have 2: "session_body (stdin_answers (- 1) 5) glibc_wait 5 100 [] session0
     = Some (Inr (Continue, ?t3, session0\<lparr>stdin_open := False\<rparr>))"
    and 3: "main_loop (stdin_answers (- 1) 5) glibc_wait 5 100 [] session0
     = main_loop (stdin_answers (- 1) 5) glibc_wait 5 100 ?t3 (session0\<lparr>stdin_open := False\<rparr>)"
    by (simp_all add: stdin_answers_def scripted_def WNOHANG_def STDIN_FILENO_def EINTR_def)
  from controller_input_close_keeps_session
    [of "stdin_answers (- 1) EINTR" "[]" 100 5 session0 ?t2 ?t3 glibc_wait, OF _ _ so _ t2 t3]
  have 4: "session_body (stdin_answers (- 1) EINTR) glibc_wait 5 100 [] session0
     = Some (Inr (Continue, ?t3, session0))"
    by (simp add: stdin_answers_def scripted_def WNOHANG_def STDIN_FILENO_def)
  from 1 2 3 4 so show ?thesis by (intro conjI)
qed


end
